theory Spec2Isabelle
  imports Main "HOL-Library.Sublist"
begin

section \<open>Static scanner for Unity per-frame callbacks (Tools/ci/static\_scan.py)\<close>

text \<open>
  The scanner reads the text of each C\# file, locates the bodies of \<open>Update\<close>,
  \<open>FixedUpdate\<close> and \<open>LateUpdate\<close> with a regular expression and a brace-depth walk
  (\<open>find_method_ranges\<close>), and appends findings to a list (\<open>main\<close>).

  A text is a \<^typ>\<open>string\<close>: a list of characters with code points 0 to 255. The character
  tables below (\<open>\s\<close>, \<open>\w\<close>, the line boundaries of \<open>splitlines\<close>, \<open>lower\<close>) are Python's tables
  for \<open>str\<close> restricted to that range. Positions in a text are natural numbers; line numbers
  are Python integers.
\<close>

subsection \<open>Characters\<close>

definition code :: "char \<Rightarrow> nat" where
  "code c = of_char c"

definition newline :: char where
  "newline = CHR 0x0A"

definition backslash :: char where
  "backslash = CHR 0x5C"

text \<open>\<open>\s\<close> of a \<open>str\<close> pattern: the characters for which \<open>str.isspace\<close> holds.\<close>

definition is_space :: "char \<Rightarrow> bool" where
  "is_space c = (let n = code c in
     (9 \<le> n \<and> n \<le> 13) \<or> (28 \<le> n \<and> n \<le> 32) \<or> n = 133 \<or> n = 160)"

text \<open>\<open>\w\<close> of a \<open>str\<close> pattern: the alphanumeric characters and the underscore.\<close>

definition is_word :: "char \<Rightarrow> bool" where
  "is_word c = (let n = code c in
     (48 \<le> n \<and> n \<le> 57) \<or> (65 \<le> n \<and> n \<le> 90) \<or> n = 95 \<or> (97 \<le> n \<and> n \<le> 122) \<or>
     n = 170 \<or> n = 178 \<or> n = 179 \<or> n = 181 \<or> n = 185 \<or> n = 186 \<or>
     (188 \<le> n \<and> n \<le> 190) \<or> (192 \<le> n \<and> n \<le> 214) \<or> (216 \<le> n \<and> n \<le> 246) \<or>
     (248 \<le> n \<and> n \<le> 255))"

text \<open>The characters at which \<open>str.splitlines\<close> ends a line.\<close>

definition is_linebreak :: "char \<Rightarrow> bool" where
  "is_linebreak c = (let n = code c in
     (10 \<le> n \<and> n \<le> 13) \<or> (28 \<le> n \<and> n \<le> 30) \<or> n = 133)"

text \<open>\<open>str.lower\<close> on one character.\<close>

definition lower_char :: "char \<Rightarrow> char" where
  "lower_char c = (let n = code c in
     if (65 \<le> n \<and> n \<le> 90) \<or> (192 \<le> n \<and> n \<le> 214) \<or> (216 \<le> n \<and> n \<le> 222)
     then char_of (n + 32) else c)"

definition lower :: "string \<Rightarrow> string" where
  "lower s = map lower_char s"

subsection \<open>String operations of Python used by the scanner\<close>

text \<open>\<open>xs[a:b]\<close> for integers \<open>a\<close> and \<open>b\<close>: a negative index counts from the end, and
  both are clamped to the length.\<close>

definition norm_index :: "nat \<Rightarrow> int \<Rightarrow> nat" where
  "norm_index n i = (if i < 0 then nat (max 0 (int n + i)) else min n (nat i))"

definition slice :: "'a list \<Rightarrow> int \<Rightarrow> int \<Rightarrow> 'a list" where
  "slice xs a b =
     (let lo = norm_index (length xs) a; hi = norm_index (length xs) b
      in take (hi - lo) (drop lo xs))"

text \<open>\<open>text.find(c, start)\<close> for a one-character string \<open>c\<close>; \<open>None\<close> stands for \<open>-1\<close>.\<close>

fun find_from :: "string \<Rightarrow> char \<Rightarrow> nat \<Rightarrow> nat option" where
  "find_from text c start =
     (case List.find (\<lambda>i. text ! i = c) [start ..< length text] of
        None \<Rightarrow> None | Some i \<Rightarrow> Some i)"

text \<open>\<open>s.count(sub)\<close>: the number of non-overlapping occurrences of \<open>sub\<close>, scanning from
  the left; for the empty \<open>sub\<close> Python answers \<open>len(s) + 1\<close>.\<close>

function count_str :: "string \<Rightarrow> string \<Rightarrow> nat" where
  "count_str sub s =
     (if sub = [] then length s + 1
      else if length s < length sub then 0
      else if take (length sub) s = sub then 1 + count_str sub (drop (length sub) s)
      else count_str sub (tl s))"
  by pat_completeness auto
termination
proof (relation "measure (\<lambda>(sub, s). length s)")
  fix sub s :: string
  assume "sub \<noteq> []" "\<not> length s < length sub"
  then have "s \<noteq> []" by auto
  then show "((sub, tl s), (sub, s)) \<in> measure (\<lambda>(sub, s). length s)"
    by (cases s) auto
  from \<open>sub \<noteq> []\<close> \<open>s \<noteq> []\<close>
  show "((sub, drop (length sub) s), (sub, s)) \<in> measure (\<lambda>(sub, s). length s)"
    by (cases s; cases sub) auto
qed simp

declare count_str.simps [simp del]

text \<open>\<open>text.count(sub, 0, stop)\<close> with \<open>stop\<close> a position of the text.\<close>

definition count_upto :: "string \<Rightarrow> string \<Rightarrow> nat \<Rightarrow> int" where
  "count_upto text sub stop = int (count_str sub (take stop text))"

text \<open>\<open>sep.join(xs)\<close>.\<close>

fun join :: "string \<Rightarrow> string list \<Rightarrow> string" where
  "join sep [] = []"
| "join sep [x] = x"
| "join sep (x # y # ys) = x @ sep @ join sep (y # ys)"

text \<open>\<open>text.splitlines()\<close>: a line ends at a line boundary character, \<open>\r\n\<close> counts as one
  boundary, and no empty line is produced after the last boundary. \<open>cur\<close> is the line
  being read.\<close>

fun splitlines_from :: "string \<Rightarrow> string \<Rightarrow> string list" where
  "splitlines_from cur [] = (if cur = [] then [] else [cur])"
| "splitlines_from cur [c] =
     (if is_linebreak c then [cur] else [cur @ [c]])"
| "splitlines_from cur (c # d # cs) =
     (if c = CHR 0x0D \<and> d = CHR 0x0A then cur # splitlines_from [] cs
      else if is_linebreak c then cur # splitlines_from [] (d # cs)
      else splitlines_from (cur @ [c]) (d # cs))"

definition splitlines :: "string \<Rightarrow> string list" where
  "splitlines text = splitlines_from [] text"

text \<open>\<open>sub in text\<close> is \<^term>\<open>sublist sub text\<close>.\<close>

subsection \<open>Regular expressions\<close>

text \<open>
  The fragment of Python's \<open>re\<close> that the scanner's patterns are written in. A repetition
  is always over a one-character class (\<open>\s*\<close>, \<open>\s+\<close>, \<open>\w+\<close>, \<open>[^\)]*\<close>, \<open>[^\n]*\<close>), and a
  pattern has at most one capturing group, so one slot holds the span of group 1.
\<close>

datatype cclass = Space | Word | Not_char char

fun in_class :: "cclass \<Rightarrow> char \<Rightarrow> bool" where
  "in_class Space c = is_space c"
| "in_class Word c = is_word c"
| "in_class (Not_char x) c = (c \<noteq> x)"

datatype regex =
    Lit string
  | Star cclass
  | Plus cclass
  | Seq regex regex
  | Alt regex regex
  | Opt regex
  | Grp regex
  | Word_boundary
  | Line_start

type_synonym span = "nat \<times> nat"
type_synonym mstate = "nat \<times> span option"

text \<open>The number of characters of the class from position \<open>i\<close> on.\<close>

definition run :: "cclass \<Rightarrow> string \<Rightarrow> nat \<Rightarrow> nat" where
  "run c s i = length (takeWhile (in_class c) (drop i s))"

text \<open>\<open>\b\<close>: exactly one of the characters before and at the position is a word character;
  outside the text there is none.\<close>

definition word_at :: "string \<Rightarrow> nat \<Rightarrow> bool" where
  "word_at s i = (i < length s \<and> is_word (s ! i))"

definition at_boundary :: "string \<Rightarrow> nat \<Rightarrow> bool" where
  "at_boundary s i = ((0 < i \<and> word_at s (i - 1)) \<noteq> word_at s i)"

text \<open>\<open>^\<close> under \<open>re.MULTILINE\<close>: the start of the text or just after a newline.\<close>

definition at_line_start :: "string \<Rightarrow> nat \<Rightarrow> bool" where
  "at_line_start s i = (i = 0 \<or> (i \<le> length s \<and> s ! (i - 1) = newline))"

text \<open>
  The backtracking matcher as a list of successes: \<open>ends r s (i, g)\<close> lists, in the order
  in which the engine tries them, the states in which a match of \<open>r\<close> that starts at
  position \<open>i\<close> with group slot \<open>g\<close> can end. A greedy repetition tries the longest run first,
  an optional part is tried before it is skipped, an alternation tries its left branch first.
  The first element is the match that \<open>re\<close> reports.
\<close>

fun ends :: "regex \<Rightarrow> string \<Rightarrow> mstate \<Rightarrow> mstate list" where
  "ends (Lit l) s (i, g) = (if take (length l) (drop i s) = l then [(i + length l, g)] else [])"
| "ends (Star c) s (i, g) = map (\<lambda>k. (i + k, g)) (rev [0 ..< Suc (run c s i)])"
| "ends (Plus c) s (i, g) = map (\<lambda>k. (i + k, g)) (rev [1 ..< Suc (run c s i)])"
| "ends (Seq a b) s x = concat (map (ends b s) (ends a s x))"
| "ends (Alt a b) s x = ends a s x @ ends b s x"
| "ends (Opt a) s x = ends a s x @ [x]"
| "ends (Grp a) s (i, g) = map (\<lambda>(j, _). (j, Some (i, j))) (ends a s (i, g))"
| "ends Word_boundary s (i, g) = (if at_boundary s i then [(i, g)] else [])"
| "ends Line_start s (i, g) = (if at_line_start s i then [(i, g)] else [])"

text \<open>A match object: \<open>m.start()\<close>, \<open>m.end()\<close> and the span of \<open>m.group(1)\<close>.\<close>

record match =
  m_start :: nat
  m_end :: nat
  m_group1 :: "span option"

text \<open>\<open>pattern.match(s, i)\<close>: the match at exactly position \<open>i\<close>.\<close>

definition match_at :: "regex \<Rightarrow> string \<Rightarrow> nat \<Rightarrow> match option" where
  "match_at r s i =
     (case ends r s (i, None) of
        [] \<Rightarrow> None
      | (j, g) # _ \<Rightarrow> Some \<lparr>m_start = i, m_end = j, m_group1 = g\<rparr>)"

text \<open>\<open>pattern.search(s, pos)\<close>: the match at the leftmost position from \<open>pos\<close> on, the
  end of the text included.\<close>

function search_from :: "regex \<Rightarrow> string \<Rightarrow> nat \<Rightarrow> match option" where
  "search_from r s pos =
     (if length s < pos then None
      else case match_at r s pos of
             Some m \<Rightarrow> Some m
           | None \<Rightarrow> search_from r s (Suc pos))"
  by pat_completeness auto
termination
  by (relation "measure (\<lambda>(r, s, pos). Suc (length s) - pos)") auto

declare search_from.simps [simp del]

definition search :: "regex \<Rightarrow> string \<Rightarrow> match option" where
  "search r s = search_from r s 0"

lemma ends_bounds:
  "(j, h) \<in> set (ends r s (i, g)) \<Longrightarrow> i \<le> j \<and> (i \<le> length s \<longrightarrow> j \<le> length s)"
proof (induction r arbitrary: i g j h)
  case (Lit l)
  then have eq: "take (length l) (drop i s) = l" and j: "j = i + length l"
    by (auto split: if_splits)
  from eq have "length (take (length l) (drop i s)) = length l"
    by simp
  then have "length l \<le> length s - i"
    by simp
  with j show ?case by auto
next
  case (Star c)
  have "run c s i \<le> length s - i"
    unfolding run_def by (metis length_takeWhile_le length_drop)
  with Star show ?case by auto
next
  case (Plus c)
  have "run c s i \<le> length s - i"
    unfolding run_def by (metis length_takeWhile_le length_drop)
  with Plus show ?case by auto
next
  case (Seq a b)
  then obtain k e where "(k, e) \<in> set (ends a s (i, g))" "(j, h) \<in> set (ends b s (k, e))"
    by auto
  with Seq.IH show ?case by (meson le_trans)
next
  case (Alt a b)
  then show ?case by auto
next
  case (Opt a)
  then show ?case by auto
next
  case (Grp a)
  then show ?case by auto
next
  case Word_boundary
  then show ?case by (auto split: if_splits)
next
  case Line_start
  then show ?case by (auto split: if_splits)
qed

lemma match_at_bounds:
  assumes "match_at r s i = Some m"
  shows "m_start m = i \<and> i \<le> m_end m \<and> (i \<le> length s \<longrightarrow> m_end m \<le> length s)"
proof -
  from assms obtain j g rest where e: "ends r s (i, None) = (j, g) # rest"
    and m: "m = \<lparr>m_start = i, m_end = j, m_group1 = g\<rparr>"
    by (auto simp: match_at_def split: list.splits)
  from e have "(j, g) \<in> set (ends r s (i, None))" by simp
  from ends_bounds [OF this] m show ?thesis by simp
qed

lemma search_from_bounds:
  "search_from r s pos = Some m \<Longrightarrow>
     pos \<le> m_start m \<and> m_start m \<le> m_end m \<and> m_end m \<le> length s"
proof (induction r s pos rule: search_from.induct)
  case (1 r s pos)
  show ?case
  proof (cases "match_at r s pos")
    case None
    with "1.prems" have le: "\<not> length s < pos" and rec: "search_from r s (Suc pos) = Some m"
      by (auto simp: search_from.simps [of r s pos] split: if_splits)
    from "1.IH" [OF le None rec] show ?thesis by simp
  next
    case (Some m')
    with "1.prems" have le: "pos \<le> length s" and "m' = m"
      by (auto simp: search_from.simps [of r s pos] split: if_splits)
    with Some match_at_bounds [of r s pos m] show ?thesis by simp
  qed
qed

text \<open>
  \<open>pattern.finditer(s)\<close>: the matches from left to right, each search starting where the
  previous match ended. After an empty match the engine moves on by one character; no
  pattern of the scanner matches the empty string, so that branch is never taken here.
\<close>

function finditer_from :: "regex \<Rightarrow> string \<Rightarrow> nat \<Rightarrow> match list" where
  "finditer_from r s pos =
     (case search_from r s pos of
        None \<Rightarrow> []
      | Some m \<Rightarrow>
          m # finditer_from r s (if m_start m < m_end m then m_end m else Suc (m_end m)))"
  by pat_completeness auto
termination
proof (relation "measure (\<lambda>(r, s, pos). Suc (length s) - pos)")
  fix r s pos m
  assume "search_from r s pos = Some m"
  from search_from_bounds [OF this]
  show "((r, s, if m_start m < m_end m then m_end m else Suc (m_end m)), (r, s, pos))
          \<in> measure (\<lambda>(r, s, pos). Suc (length s) - pos)"
    by auto
qed simp

declare finditer_from.simps [simp del]

definition finditer :: "regex \<Rightarrow> string \<Rightarrow> match list" where
  "finditer r s = finditer_from r s 0"

subsection \<open>The patterns\<close>

fun seqs :: "regex list \<Rightarrow> regex" where
  "seqs [] = Lit []"
| "seqs [r] = r"
| "seqs (r # rs) = Seq r (seqs rs)"

fun alts :: "regex list \<Rightarrow> regex" where
  "alts [] = Lit []"
| "alts [r] = r"
| "alts (r # rs) = Alt r (alts rs)"

text \<open>\<open>\b(GetComponent|FindObjectOfType|FindObjectsOfType|GameObject\.Find|Resources\.Load|Instantiate|Destroy)\b\<close>\<close>

definition expensive_call_in_update :: regex where
  "expensive_call_in_update =
     seqs [Word_boundary,
           Grp (alts [Lit ''GetComponent'', Lit ''FindObjectOfType'', Lit ''FindObjectsOfType'',
                      Lit ''GameObject.Find'', Lit ''Resources.Load'', Lit ''Instantiate'',
                      Lit ''Destroy'']),
           Word_boundary]"

text \<open>\<open>\b(Select|Where|OrderBy|OrderByDescending|ToList|GroupBy|Distinct|Join)\s*\(\<close>\<close>

definition linq_in_update :: regex where
  "linq_in_update =
     seqs [Word_boundary,
           Grp (alts [Lit ''Select'', Lit ''Where'', Lit ''OrderBy'', Lit ''OrderByDescending'',
                      Lit ''ToList'', Lit ''GroupBy'', Lit ''Distinct'', Lit ''Join'']),
           Star Space, Lit ''('']"

text \<open>\<open>\bDebug\.(Log|LogWarning|LogError)\s*\(\<close>\<close>

definition debug_in_update :: regex where
  "debug_in_update =
     seqs [Word_boundary, Lit ''Debug.'',
           Grp (alts [Lit ''Log'', Lit ''LogWarning'', Lit ''LogError'']),
           Star Space, Lit ''('']"

text \<open>\<open>catch\s*\([^\)]*\)\s*\{(\s*//[^\n]*\n|\s*)\}\<close>\<close>

definition empty_catch :: regex where
  "empty_catch =
     seqs [Lit ''catch'', Star Space, Lit ''('', Star (Not_char CHR '')''), Lit '')'',
           Star Space, Lit ''{'',
           Grp (Alt (seqs [Star Space, Lit ''//'', Star (Not_char newline), Lit [newline]])
                    (Star Space)),
           Lit ''}'']"

text \<open>\<open>^\s*using\s+UnityEditor\s*;\<close> with \<open>re.MULTILINE\<close>\<close>

definition using_unityeditor :: regex where
  "using_unityeditor =
     seqs [Line_start, Star Space, Lit ''using'', Plus Space, Lit ''UnityEditor'',
           Star Space, Lit '';'']"

text \<open>\<open>\bStartCoroutine\s*\(\<close>\<close>

definition start_coroutine :: regex where
  "start_coroutine = seqs [Word_boundary, Lit ''StartCoroutine'', Star Space, Lit ''('']"

text \<open>\<open>\+\=\<close> and \<open>\-=\<close>\<close>

definition subscribe_event :: regex where
  "subscribe_event = Lit ''+=''"

definition unsubscribe_event :: regex where
  "unsubscribe_event = Lit ''-=''"

text \<open>\<open>\basync\s+void\s+\w+\s*\(\<close>\<close>

definition async_void :: regex where
  "async_void =
     seqs [Word_boundary, Lit ''async'', Plus Space, Lit ''void'', Plus Space, Plus Word,
           Star Space, Lit ''('']"

text \<open>\<open>\b(AddForce|MovePosition|MoveRotation|velocity)\b\<close>\<close>

definition fixedupdate_physics_calls :: regex where
  "fixedupdate_physics_calls =
     seqs [Word_boundary,
           Grp (alts [Lit ''AddForce'', Lit ''MovePosition'', Lit ''MoveRotation'',
                      Lit ''velocity'']),
           Word_boundary]"

text \<open>\<open>\b(?:public|private|protected|internal)?\s*(?:async\s+)?(?:override\s+)?(?:static\s+)?void\s+(Update|FixedUpdate|LateUpdate)\s*\(\<close>
  (the flag \<open>re.MULTILINE\<close> changes nothing: the pattern has no \<open>^\<close> and no \<open>$\<close>)\<close>

definition METHOD_START_RE :: regex where
  "METHOD_START_RE =
     seqs [Word_boundary,
           Opt (alts [Lit ''public'', Lit ''private'', Lit ''protected'', Lit ''internal'']),
           Star Space,
           Opt (Seq (Lit ''async'') (Plus Space)),
           Opt (Seq (Lit ''override'') (Plus Space)),
           Opt (Seq (Lit ''static'') (Plus Space)),
           Lit ''void'', Plus Space,
           Grp (alts [Lit ''Update'', Lit ''FixedUpdate'', Lit ''LateUpdate'']),
           Star Space, Lit ''('']"

subsection \<open>\<open>find_method_ranges\<close>\<close>

text \<open>The only exception the function could raise: \<open>ranges[name]\<close> for a \<open>name\<close> that is
  not a key (\<open>None\<close> when group 1 took no part in the match).\<close>

datatype error = KeyError "string option"

type_synonym line_range = "int \<times> int"
type_synonym ranges = "(string \<times> line_range list) list"

text \<open>\<open>m.group(1)\<close>\<close>

definition group1 :: "string \<Rightarrow> match \<Rightarrow> string option" where
  "group1 text m =
     (case m_group1 m of None \<Rightarrow> None | Some (a, b) \<Rightarrow> Some (take (b - a) (drop a text)))"

text \<open>\<open>ranges[name].append(r)\<close> on the dictionary, kept as an association list in
  insertion order.\<close>

definition dict_append :: "string option \<Rightarrow> line_range \<Rightarrow> ranges \<Rightarrow> error + ranges" where
  "dict_append name r d =
     (case name of
        None \<Rightarrow> Inl (KeyError None)
      | Some n \<Rightarrow>
          if n \<in> fst ` set d
          then Inr (map (\<lambda>(k, v). if k = n then (k, v @ [r]) else (k, v)) d)
          else Inl (KeyError name))"

text \<open>The \<open>while i < text_len\<close> loop: the state is \<open>i\<close> and \<open>depth\<close>, the result is
  \<open>end_pos\<close>.\<close>

function brace_walk :: "string \<Rightarrow> nat \<Rightarrow> int \<Rightarrow> nat option" where
  "brace_walk text i depth =
     (if i < length text then
        (let ch = text ! i in
         if ch = CHR ''{'' then brace_walk text (i + 1) (depth + 1)
         else if ch = CHR ''}'' then
           (if depth - 1 = 0 then Some i else brace_walk text (i + 1) (depth - 1))
         else brace_walk text (i + 1) depth)
      else None)"
  by pat_completeness auto
termination
  by (relation "measure (\<lambda>(text, i, depth). length text - i)") auto

declare brace_walk.simps [simp del]

text \<open>The body of the \<open>for m in METHOD_START_RE.finditer(text)\<close> loop; \<open>continue\<close> leaves
  the dictionary as it is.\<close>

definition range_step :: "string \<Rightarrow> ranges \<Rightarrow> match \<Rightarrow> error + ranges" where
  "range_step text ranges m =
     (let name = group1 text m in
      case find_from text CHR ''{'' (m_end m) of
        None \<Rightarrow> Inr ranges
      | Some brace_pos \<Rightarrow>
          (case brace_walk text brace_pos 0 of
             None \<Rightarrow> Inr ranges
           | Some end_pos \<Rightarrow>
               (let start_line = count_upto text [newline] brace_pos + 1;
                    end_line = count_upto text [newline] end_pos + 1
                in dict_append name (start_line, end_line) ranges)))"

fun for_each :: "('s \<Rightarrow> 'a \<Rightarrow> error + 's) \<Rightarrow> 'a list \<Rightarrow> 's \<Rightarrow> error + 's" where
  "for_each f [] st = Inr st"
| "for_each f (x # xs) st = (case f st x of Inl e \<Rightarrow> Inl e | Inr st' \<Rightarrow> for_each f xs st')"

definition find_method_ranges :: "string \<Rightarrow> error + ranges" where
  "find_method_ranges text =
     for_each (range_step text) (finditer METHOD_START_RE text)
       [(''Update'', []), (''FixedUpdate'', []), (''LateUpdate'', [])]"

subsection \<open>The scan of one file in \<open>main\<close>\<close>

record finding =
  "file" :: string
  line :: int
  severity :: string
  rule :: string
  detail :: string

text \<open>Each part of the loop body takes the list \<open>findings\<close> and returns it with the new
  rows appended. \<open>path\<close> is \<open>str(p.relative_to(ROOT))\<close>.\<close>

definition scan_using :: "string \<Rightarrow> string \<Rightarrow> finding list \<Rightarrow> finding list" where
  "scan_using path text findings =
     (case search using_unityeditor text of
        None \<Rightarrow> findings
      | Some m \<Rightarrow> findings @
          [\<lparr>file = path, line = count_upto text [backslash, CHR ''n''] (m_start m) + 1,
            severity = ''warn'', rule = ''using-UnityEditor-in-runtime'',
            detail = ''File imports UnityEditor; wrap editor-only code or move to Editor/.''\<rparr>])"

definition scan_empty_catch :: "string \<Rightarrow> string \<Rightarrow> finding list \<Rightarrow> finding list" where
  "scan_empty_catch path text findings =
     foldl (\<lambda>findings m. findings @
          [\<lparr>file = path, line = count_upto text [backslash, CHR ''n''] (m_start m) + 1,
            severity = ''warn'', rule = ''empty-catch-block'',
            detail = ''Empty catch block swallows exceptions.''\<rparr>])
       findings (finditer empty_catch text)"

definition scan_async_void :: "string \<Rightarrow> string \<Rightarrow> finding list \<Rightarrow> finding list" where
  "scan_async_void path text findings =
     foldl (\<lambda>findings m. findings @
          [\<lparr>file = path, line = count_upto text [backslash, CHR ''n''] (m_start m) + 1,
            severity = ''warn'', rule = ''async-void'',
            detail = ''Avoid async void (except event handlers); prefer async Task.''\<rparr>])
       findings (finditer async_void text)"

definition scan_unsubscribe :: "string \<Rightarrow> string \<Rightarrow> finding list \<Rightarrow> finding list" where
  "scan_unsubscribe path text findings =
     (if search subscribe_event text \<noteq> None \<and> \<not> search unsubscribe_event text \<noteq> None
      then findings @
          [\<lparr>file = path, line = 1, severity = ''info'', rule = ''event-unsubscribe-missing'',
            detail = ''Subscriptions detected but no obvious unsubscription; ensure to unsubscribe in OnDisable/OnDestroy.''\<rparr>]
      else findings)"

definition scan_coroutine :: "string \<Rightarrow> string \<Rightarrow> finding list \<Rightarrow> finding list" where
  "scan_coroutine path text findings =
     (if search start_coroutine text \<noteq> None then
        (if \<not> sublist ''OnDisable'' text \<and> \<not> sublist ''OnDestroy'' text
            \<and> \<not> sublist ''StopCoroutine'' text
         then findings @
          [\<lparr>file = path, line = 1, severity = ''info'', rule = ''coroutine-stop-missing'',
            detail = ''StartCoroutine used without a stop path.''\<rparr>]
         else findings)
      else findings)"

text \<open>\<open>body = "\\n".join(lines[s-1:e])\<close>: the separator is a backslash followed by the
  letter n.\<close>

definition body_text :: "string list \<Rightarrow> line_range \<Rightarrow> string" where
  "body_text lines r = (case r of (s, e) \<Rightarrow> join [backslash, CHR ''n''] (slice lines (s - 1) e))"

text \<open>The body of \<open>for (s, e) in ranges\<close>: four tests in a row, each appending at most one
  row.\<close>

definition scan_body ::
  "string \<Rightarrow> string \<Rightarrow> string list \<Rightarrow> finding list \<Rightarrow> line_range \<Rightarrow> finding list" where
  "scan_body path method_name lines findings r =
     (case r of (s, e) \<Rightarrow>
      let body = body_text lines (s, e);
          findings = (if search expensive_call_in_update body \<noteq> None
            then findings @
              [\<lparr>file = path, line = s, severity = ''warn'',
                rule = lower method_name @ ''-expensive-call'',
                detail = ''Potentially expensive call inside '' @ method_name @ ''().''\<rparr>]
            else findings);
          findings = (if search linq_in_update body \<noteq> None
            then findings @
              [\<lparr>file = path, line = s, severity = ''info'',
                rule = lower method_name @ ''-linq-allocation'',
                detail = ''LINQ usage inside '' @ method_name @ ''() can allocate per-frame.''\<rparr>]
            else findings);
          findings = (if search debug_in_update body \<noteq> None
            then findings @
              [\<lparr>file = path, line = s, severity = ''info'',
                rule = lower method_name @ ''-debuglog'',
                detail = ''Debug logging inside '' @ method_name @ ''() can be noisy.''\<rparr>]
            else findings);
          findings = (if method_name = ''FixedUpdate''
                         \<and> search fixedupdate_physics_calls body \<noteq> None
            then findings @
              [\<lparr>file = path, line = s, severity = ''ok'', rule = ''fixedupdate-physics'',
                detail = ''Physics calls in FixedUpdate (generally correct).''\<rparr>]
            else findings)
      in findings)"

text \<open>\<open>for method_name, ranges in method_ranges.items(): for (s, e) in ranges: ...\<close>\<close>

definition scan_methods ::
  "string \<Rightarrow> string list \<Rightarrow> ranges \<Rightarrow> finding list \<Rightarrow> finding list" where
  "scan_methods path lines method_ranges findings =
     foldl (\<lambda>findings (method_name, ranges).
              foldl (scan_body path method_name lines) findings ranges)
       findings method_ranges"

text \<open>The body of \<open>for p in cs_files\<close> for a file with the given text.\<close>

definition scan_file :: "string \<Rightarrow> string \<Rightarrow> finding list \<Rightarrow> error + finding list" where
  "scan_file path text findings =
     (let lines = splitlines text in
      case find_method_ranges text of
        Inl err \<Rightarrow> Inl err
      | Inr method_ranges \<Rightarrow>
          (let findings = scan_using path text findings;
               findings = scan_empty_catch path text findings;
               findings = scan_async_void path text findings;
               findings = scan_unsubscribe path text findings;
               findings = scan_coroutine path text findings;
               findings = scan_methods path lines method_ranges findings
           in Inr findings))"

text \<open>\<open>findings = []\<close> and the loop over the files, each given as its relative path and
  its text.\<close>

definition scan_files :: "(string \<times> string) list \<Rightarrow> error + finding list" where
  "scan_files files = for_each (\<lambda>findings (path, text). scan_file path text findings) files []"

subsection \<open>Facts about searching\<close>

lemma search_from_None_iff:
  "search_from r s pos = None \<longleftrightarrow> (\<forall>i. pos \<le> i \<and> i \<le> length s \<longrightarrow> match_at r s i = None)"
proof (induction r s pos rule: search_from.induct)
  case (1 r s pos)
  show ?case
  proof (cases "length s < pos")
    case True
    then show ?thesis by (auto simp: search_from.simps [of r s pos])
  next
    case le: False
    show ?thesis
    proof (cases "match_at r s pos")
      case None
      from "1.IH" [OF le None]
      have "search_from r s (Suc pos) = None \<longleftrightarrow>
              (\<forall>i. Suc pos \<le> i \<and> i \<le> length s \<longrightarrow> match_at r s i = None)" .
      moreover have "search_from r s pos = search_from r s (Suc pos)"
        using le None by (simp add: search_from.simps [of r s pos])
      moreover have "(\<forall>i. pos \<le> i \<and> i \<le> length s \<longrightarrow> match_at r s i = None) \<longleftrightarrow>
              (\<forall>i. Suc pos \<le> i \<and> i \<le> length s \<longrightarrow> match_at r s i = None)"
        using None by (metis Suc_leD Suc_leI le_neq_implies_less)
      ultimately show ?thesis by simp
    next
      case (Some m)
      then have "search_from r s pos = Some m"
        using le by (simp add: search_from.simps [of r s pos])
      moreover have "\<not> (\<forall>i. pos \<le> i \<and> i \<le> length s \<longrightarrow> match_at r s i = None)"
        using Some le by (metis le_refl not_less option.distinct(1))
      ultimately show ?thesis by simp
    qed
  qed
qed

lemma search_from_Some:
  "search_from r s pos = Some m \<Longrightarrow>
     \<exists>i. pos \<le> i \<and> i \<le> length s \<and> match_at r s i = Some m \<and>
         (\<forall>k. pos \<le> k \<and> k < i \<longrightarrow> match_at r s k = None)"
proof (induction r s pos rule: search_from.induct)
  case (1 r s pos)
  from "1.prems" have le: "\<not> length s < pos"
    by (auto simp: search_from.simps [of r s pos] split: if_splits)
  show ?case
  proof (cases "match_at r s pos")
    case None
    with "1.prems" le have rec: "search_from r s (Suc pos) = Some m"
      by (simp add: search_from.simps [of r s pos])
    from "1.IH" [OF le None rec] obtain i where i: "Suc pos \<le> i" "i \<le> length s"
      "match_at r s i = Some m" "\<forall>k. Suc pos \<le> k \<and> k < i \<longrightarrow> match_at r s k = None"
      by blast
    have "\<forall>k. pos \<le> k \<and> k < i \<longrightarrow> match_at r s k = None"
      using i(4) None by (metis Suc_leI le_neq_implies_less)
    with i show ?thesis by (metis Suc_leD)
  next
    case (Some m')
    with "1.prems" le have "m' = m"
      by (simp add: search_from.simps [of r s pos])
    with Some le show ?thesis by (intro exI [of _ pos]) auto
  qed
qed

lemma search_from_first:
  assumes "pos \<le> i" "i \<le> length s" "match_at r s i = Some m"
    and "\<forall>k. pos \<le> k \<and> k < i \<longrightarrow> match_at r s k = None"
  shows "search_from r s pos = Some m"
proof -
  from assms(1-3) have "search_from r s pos \<noteq> None"
    by (auto simp: search_from_None_iff)
  then obtain m' where m': "search_from r s pos = Some m'" by auto
  from search_from_Some [OF this] obtain j where j: "pos \<le> j" "j \<le> length s"
    "match_at r s j = Some m'" "\<forall>k. pos \<le> k \<and> k < j \<longrightarrow> match_at r s k = None"
    by blast
  have "j = i"
  proof (rule ccontr)
    assume "j \<noteq> i"
    then consider "j < i" | "i < j" by linarith
    then show False
      using assms j by cases auto
  qed
  with j assms m' show ?thesis by simp
qed

lemma finditer_from_member:
  "m \<in> set (finditer_from r s pos) \<Longrightarrow>
     \<exists>i. pos \<le> i \<and> i \<le> length s \<and> match_at r s i = Some m"
proof (induction r s pos rule: finditer_from.induct)
  case (1 r s pos)
  show ?case
  proof (cases "search_from r s pos")
    case None
    with "1.prems" show ?thesis by (simp add: finditer_from.simps [of r s pos])
  next
    case (Some m')
    let ?next = "if m_start m' < m_end m' then m_end m' else Suc (m_end m')"
    from Some "1.prems" have "m = m' \<or> m \<in> set (finditer_from r s ?next)"
      by (simp add: finditer_from.simps [of r s pos])
    then show ?thesis
    proof
      assume "m = m'"
      with search_from_Some [OF Some] show ?thesis by blast
    next
      assume "m \<in> set (finditer_from r s ?next)"
      from "1.IH" [OF Some this] obtain i where "?next \<le> i" "i \<le> length s"
        "match_at r s i = Some m" by blast
      moreover have "pos \<le> ?next"
        using search_from_bounds [OF Some] by auto
      ultimately show ?thesis by (meson le_trans)
    qed
  qed
qed

lemma finditer_from_Nil_iff:
  "finditer_from r s pos = [] \<longleftrightarrow> search_from r s pos = None"
  by (simp add: finditer_from.simps [of r s pos] split: option.splits)

subsection \<open>Facts about the matcher\<close>

lemma ends_Seq_iff:
  "(j, h) \<in> set (ends (Seq a b) s x) \<longleftrightarrow> (\<exists>y \<in> set (ends a s x). (j, h) \<in> set (ends b s y))"
  by auto

text \<open>A pattern without a capturing group leaves the group slot as it is.\<close>

fun grp_free :: "regex \<Rightarrow> bool" where
  "grp_free (Grp a) = False"
| "grp_free (Seq a b) = (grp_free a \<and> grp_free b)"
| "grp_free (Alt a b) = (grp_free a \<and> grp_free b)"
| "grp_free (Opt a) = grp_free a"
| "grp_free r = True"

lemma grp_free_keeps:
  "grp_free r \<Longrightarrow> (j, h) \<in> set (ends r s (i, g)) \<Longrightarrow> h = g"
proof (induction r arbitrary: i g j h)
  case (Seq a b)
  from Seq.prems(2) obtain k e where a: "(k, e) \<in> set (ends a s (i, g))"
    and b: "(j, h) \<in> set (ends b s (k, e))"
    by auto
  from Seq.IH(1) [OF _ a] Seq.prems(1) have "e = g" by simp
  with Seq.IH(2) [OF _ b] Seq.prems(1) show ?case by simp
qed (auto split: if_splits)

lemma ends_Seq_grp_free_left:
  assumes "grp_free a" "(j, h) \<in> set (ends (Seq a b) s (i, g))"
  shows "\<exists>k. i \<le> k \<and> (j, h) \<in> set (ends b s (k, g))"
proof -
  from assms(2) obtain k e where a: "(k, e) \<in> set (ends a s (i, g))"
    and b: "(j, h) \<in> set (ends b s (k, e))"
    by auto
  from grp_free_keeps [OF assms(1) a] ends_bounds [OF a] b show ?thesis by auto
qed

lemma ends_Seq_grp_free_right:
  assumes "grp_free b" "(j, h) \<in> set (ends (Seq a b) s x)"
  shows "\<exists>k. (k, h) \<in> set (ends a s x)"
proof -
  from assms(2) obtain k e where a: "(k, e) \<in> set (ends a s x)"
    and b: "(j, h) \<in> set (ends b s (k, e))"
    by auto
  from grp_free_keeps [OF assms(1) b] a show ?thesis by auto
qed

lemma ends_Lit_iff:
  "(j, h) \<in> set (ends (Lit l) s (i, g)) \<longleftrightarrow>
     take (length l) (drop i s) = l \<and> j = i + length l \<and> h = g"
  by auto

lemma ends_Lit_take:
  "(j, h) \<in> set (ends (Lit l) s (i, g)) \<Longrightarrow> take (j - i) (drop i s) = l"
  by (auto split: if_splits)

text \<open>Group 1 of a match of \<open>METHOD_START_RE\<close> is one of the three method names.\<close>

definition method_names :: "string set" where
  "method_names = {''Update'', ''FixedUpdate'', ''LateUpdate''}"

lemma METHOD_START_RE_group:
  assumes "(j, h) \<in> set (ends METHOD_START_RE s (i, g))"
  shows "\<exists>a b. h = Some (a, b) \<and> take (b - a) (drop a s) \<in> method_names"
proof -
  let ?names = "Grp (alts [Lit ''Update'', Lit ''FixedUpdate'', Lit ''LateUpdate''])"
  let ?post = "Seq (Star Space) (Lit ''('')"
  from assms have 1: "(j, h) \<in> set (ends (Seq Word_boundary
      (Seq (Opt (alts [Lit ''public'', Lit ''private'', Lit ''protected'', Lit ''internal'']))
      (Seq (Star Space) (Seq (Opt (Seq (Lit ''async'') (Plus Space)))
      (Seq (Opt (Seq (Lit ''override'') (Plus Space)))
      (Seq (Opt (Seq (Lit ''static'') (Plus Space)))
      (Seq (Lit ''void'') (Seq (Plus Space) (Seq ?names ?post))))))))) s (i, g))"
    by (simp only: METHOD_START_RE_def seqs.simps)
  from ends_Seq_grp_free_left [OF _ 1] obtain k1 where 2: "(j, h) \<in> set (ends
      (Seq (Opt (alts [Lit ''public'', Lit ''private'', Lit ''protected'', Lit ''internal'']))
      (Seq (Star Space) (Seq (Opt (Seq (Lit ''async'') (Plus Space)))
      (Seq (Opt (Seq (Lit ''override'') (Plus Space)))
      (Seq (Opt (Seq (Lit ''static'') (Plus Space)))
      (Seq (Lit ''void'') (Seq (Plus Space) (Seq ?names ?post)))))))) s (k1, g))"
    by (simp only: grp_free.simps alts.simps) blast
  from ends_Seq_grp_free_left [OF _ 2] obtain k2 where 3: "(j, h) \<in> set (ends
      (Seq (Star Space) (Seq (Opt (Seq (Lit ''async'') (Plus Space)))
      (Seq (Opt (Seq (Lit ''override'') (Plus Space)))
      (Seq (Opt (Seq (Lit ''static'') (Plus Space)))
      (Seq (Lit ''void'') (Seq (Plus Space) (Seq ?names ?post))))))) s (k2, g))"
    by (simp only: grp_free.simps alts.simps) blast
  from ends_Seq_grp_free_left [OF _ 3] obtain k3 where 4: "(j, h) \<in> set (ends
      (Seq (Opt (Seq (Lit ''async'') (Plus Space)))
      (Seq (Opt (Seq (Lit ''override'') (Plus Space)))
      (Seq (Opt (Seq (Lit ''static'') (Plus Space)))
      (Seq (Lit ''void'') (Seq (Plus Space) (Seq ?names ?post)))))) s (k3, g))"
    by (simp only: grp_free.simps alts.simps) blast
  from ends_Seq_grp_free_left [OF _ 4] obtain k4 where 5: "(j, h) \<in> set (ends
      (Seq (Opt (Seq (Lit ''override'') (Plus Space)))
      (Seq (Opt (Seq (Lit ''static'') (Plus Space)))
      (Seq (Lit ''void'') (Seq (Plus Space) (Seq ?names ?post))))) s (k4, g))"
    by (simp only: grp_free.simps alts.simps) blast
  from ends_Seq_grp_free_left [OF _ 5] obtain k5 where 6: "(j, h) \<in> set (ends
      (Seq (Opt (Seq (Lit ''static'') (Plus Space)))
      (Seq (Lit ''void'') (Seq (Plus Space) (Seq ?names ?post)))) s (k5, g))"
    by (simp only: grp_free.simps alts.simps) blast
  from ends_Seq_grp_free_left [OF _ 6] obtain k6 where 7: "(j, h) \<in> set (ends
      (Seq (Lit ''void'') (Seq (Plus Space) (Seq ?names ?post))) s (k6, g))"
    by (simp only: grp_free.simps alts.simps) blast
  from ends_Seq_grp_free_left [OF _ 7] obtain k7 where 8: "(j, h) \<in> set (ends
      (Seq (Plus Space) (Seq ?names ?post)) s (k7, g))"
    by (simp only: grp_free.simps alts.simps) blast
  from ends_Seq_grp_free_left [OF _ 8] obtain k8 where 9: "(j, h) \<in> set (ends
      (Seq ?names ?post) s (k8, g))"
    by (simp only: grp_free.simps alts.simps) blast
  from ends_Seq_grp_free_right [OF _ 9] obtain k9 where 10: "(k9, h) \<in> set (ends ?names s (k8, g))"
    by (simp only: grp_free.simps) blast
  then obtain e where h: "h = Some (k8, k9)"
    and e: "(k9, e) \<in> set (ends (alts [Lit ''Update'', Lit ''FixedUpdate'', Lit ''LateUpdate'']) s (k8, g))"
    by auto
  from e have "(k9, e) \<in> set (ends (Lit ''Update'') s (k8, g)) \<or>
      (k9, e) \<in> set (ends (Lit ''FixedUpdate'') s (k8, g)) \<or>
      (k9, e) \<in> set (ends (Lit ''LateUpdate'') s (k8, g))"
    by (simp only: alts.simps ends.simps set_append Un_iff)
  then have "take (k9 - k8) (drop k8 s) = ''Update'' \<or>
      take (k9 - k8) (drop k8 s) = ''FixedUpdate'' \<or>
      take (k9 - k8) (drop k8 s) = ''LateUpdate''"
    using ends_Lit_take by blast
  then have "take (k9 - k8) (drop k8 s) \<in> method_names"
    unfolding method_names_def by blast
  with h show ?thesis by blast
qed

lemma METHOD_START_RE_group1:
  assumes "m \<in> set (finditer METHOD_START_RE text)"
  shows "\<exists>name \<in> method_names. group1 text m = Some name"
proof -
  from assms finditer_from_member obtain i where "match_at METHOD_START_RE text i = Some m"
    unfolding finditer_def by blast
  then obtain j h rest where e: "ends METHOD_START_RE text (i, None) = (j, h) # rest"
    and m: "m = \<lparr>m_start = i, m_end = j, m_group1 = h\<rparr>"
    by (auto simp: match_at_def split: list.splits)
  from e have "(j, h) \<in> set (ends METHOD_START_RE text (i, None))" by simp
  from METHOD_START_RE_group [OF this] m show ?thesis
    by (auto simp: group1_def)
qed

subsection \<open>The result of \<open>find_method_ranges\<close>\<close>

text \<open>What one declaration contributes: the lines of its first opening brace and of the
  brace that closes it, if both exist.\<close>

definition method_range :: "string \<Rightarrow> match \<Rightarrow> line_range option" where
  "method_range text m =
     (case find_from text CHR ''{'' (m_end m) of
        None \<Rightarrow> None
      | Some brace_pos \<Rightarrow>
          (case brace_walk text brace_pos 0 of
             None \<Rightarrow> None
           | Some end_pos \<Rightarrow>
               Some (count_upto text [newline] brace_pos + 1,
                     count_upto text [newline] end_pos + 1)))"

definition ranges_among :: "string \<Rightarrow> match list \<Rightarrow> string \<Rightarrow> line_range list" where
  "ranges_among text ms name =
     List.map_filter (method_range text) (filter (\<lambda>m. group1 text m = Some name) ms)"

definition ranges_of :: "string \<Rightarrow> string \<Rightarrow> line_range list" where
  "ranges_of text name = ranges_among text (finditer METHOD_START_RE text) name"

lemma range_step_eq:
  "range_step text rs m =
     (case method_range text m of
        None \<Rightarrow> Inr rs
      | Some r \<Rightarrow> dict_append (group1 text m) r rs)"
  by (simp add: range_step_def method_range_def Let_def split: option.splits)

lemma ranges_among_Nil: "ranges_among text [] name = []"
  by (simp add: ranges_among_def List.map_filter_simps)

lemma ranges_among_Cons:
  "ranges_among text (m # ms) name =
     (if group1 text m = Some name
      then (case method_range text m of None \<Rightarrow> [] | Some r \<Rightarrow> [r]) else [])
     @ ranges_among text ms name"
  by (simp add: ranges_among_def List.map_filter_simps split: option.splits)

lemma for_each_range_step:
  assumes "\<forall>m \<in> set ms. \<exists>name \<in> method_names. group1 text m = Some name"
  shows "for_each (range_step text) ms
           [(''Update'', u), (''FixedUpdate'', f), (''LateUpdate'', l)] =
         Inr [(''Update'', u @ ranges_among text ms ''Update''),
              (''FixedUpdate'', f @ ranges_among text ms ''FixedUpdate''),
              (''LateUpdate'', l @ ranges_among text ms ''LateUpdate'')]"
  using assms
proof (induction ms arbitrary: u f l)
  case Nil
  then show ?case by (simp add: ranges_among_Nil)
next
  case (Cons m ms)
  from Cons.prems obtain name where name: "name \<in> method_names" "group1 text m = Some name"
    by auto
  from Cons.prems have rest: "\<forall>m \<in> set ms. \<exists>name \<in> method_names. group1 text m = Some name"
    by simp
  show ?case
  proof (cases "method_range text m")
    case None
    then show ?thesis
      using Cons.IH [OF rest] by (simp add: range_step_eq ranges_among_Cons)
  next
    case (Some r)
    from name consider "name = ''Update''" | "name = ''FixedUpdate''" | "name = ''LateUpdate''"
      by (auto simp: method_names_def)
    then show ?thesis
    proof cases
      case 1
      then show ?thesis
        using Some name Cons.IH [OF rest]
        by (simp add: range_step_eq ranges_among_Cons dict_append_def)
    next
      case 2
      then show ?thesis
        using Some name Cons.IH [OF rest]
        by (simp add: range_step_eq ranges_among_Cons dict_append_def)
    next
      case 3
      then show ?thesis
        using Some name Cons.IH [OF rest]
        by (simp add: range_step_eq ranges_among_Cons dict_append_def)
    qed
  qed
qed

lemma find_method_ranges_eq:
  "find_method_ranges text =
     Inr [(''Update'', ranges_of text ''Update''),
          (''FixedUpdate'', ranges_of text ''FixedUpdate''),
          (''LateUpdate'', ranges_of text ''LateUpdate'')]"
proof -
  have "\<forall>m \<in> set (finditer METHOD_START_RE text).
          \<exists>name \<in> method_names. group1 text m = Some name"
    using METHOD_START_RE_group1 by blast
  from for_each_range_step [OF this, of "[]" "[]" "[]"] show ?thesis
    by (simp add: find_method_ranges_def ranges_of_def)
qed

lemma finditer_Nil_iff:
  "finditer r s = [] \<longleftrightarrow> (\<forall>i \<in> {0..length s}. match_at r s i = None)"
  by (auto simp: finditer_def finditer_from_Nil_iff search_from_None_iff)

subsection \<open>Claims about \<open>find_method_ranges\<close>\<close>

text \<open>
  C8 as stated: for a text without a declaration of \<open>Update\<close>, \<open>FixedUpdate\<close> or
  \<open>LateUpdate\<close>, \<open>find_method_ranges\<close> returns an empty mapping. The empty text has no
  declaration, and the dictionary returned for it is not empty: it has the three keys.
\<close>

theorem C8_empty_mapping_counterexample:
  "finditer METHOD_START_RE '''' = [] \<and> find_method_ranges '''' \<noteq> Inr []"
  by code_simp

text \<open>
  C8 amended: when \<open>METHOD_START_RE\<close> finds no declaration in the text (by
  \<open>finditer_Nil_iff\<close>: no position of the text starts a match), the result is the
  dictionary that maps each of the three method names to the empty list; it holds no
  range at all.
\<close>

theorem C8_no_declaration_no_range:
  assumes "finditer METHOD_START_RE text = []"
  shows "find_method_ranges text =
           Inr [(''Update'', []), (''FixedUpdate'', []), (''LateUpdate'', [])]"
  using assms by (simp add: find_method_ranges_def)

theorem C8_no_declaration_no_range_witness:
  "finditer METHOD_START_RE ''void Start() { }'' = []
   \<and> find_method_ranges ''void Start() { }'' =
       Inr [(''Update'', []), (''FixedUpdate'', []), (''LateUpdate'', [])]"
proof -
  have h: "finditer METHOD_START_RE ''void Start() { }'' = []"
    by code_simp
  from h C8_no_declaration_no_range [OF h] show ?thesis by blast
qed

subsection \<open>The brace walk against the nesting depth\<close>

text \<open>The nesting depth in the spec's words: each \<open>{\<close> adds one, each \<open>}\<close> takes one
  away. \<open>depth_after text a j\<close> is the depth after the characters at \<open>a\<close> to \<open>j\<close>, both
  included; \<open>closes_at text a j\<close> says that the character at \<open>j\<close> is a closing brace that
  returns the depth counted from \<open>a\<close> to zero.\<close>

definition brace_delta :: "char \<Rightarrow> int" where
  "brace_delta c = (if c = CHR ''{'' then 1 else if c = CHR ''}'' then - 1 else 0)"

definition depth_after :: "string \<Rightarrow> nat \<Rightarrow> nat \<Rightarrow> int" where
  "depth_after text a j = sum_list (map brace_delta (take (Suc j - a) (drop a text)))"

definition closes_from :: "string \<Rightarrow> nat \<Rightarrow> int \<Rightarrow> nat \<Rightarrow> bool" where
  "closes_from text a d j \<longleftrightarrow>
     a \<le> j \<and> j < length text \<and> text ! j = CHR ''}'' \<and> d + depth_after text a j = 0"

definition closes_at :: "string \<Rightarrow> nat \<Rightarrow> nat \<Rightarrow> bool" where
  "closes_at text a j \<longleftrightarrow> closes_from text a 0 j"

lemma closes_from_le: "closes_from text a d j \<Longrightarrow> a \<le> j"
  by (simp add: closes_from_def)

lemma depth_after_step:
  assumes "i < length text" "i \<le> j"
  shows "depth_after text i j =
           brace_delta (text ! i) + (if i < j then depth_after text (Suc i) j else 0)"
proof -
  have "drop i text = text ! i # drop (Suc i) text"
    using assms(1) by (simp add: Cons_nth_drop_Suc)
  moreover have "Suc j - i = Suc (j - i)"
    using assms(2) by simp
  ultimately have "take (Suc j - i) (drop i text) = text ! i # take (j - i) (drop (Suc i) text)"
    by simp
  moreover have "i < j \<Longrightarrow> j - i = Suc j - Suc i"
    by simp
  moreover have "\<not> i < j \<Longrightarrow> j - i = 0"
    using assms(2) by simp
  ultimately show ?thesis
    by (auto simp: depth_after_def)
qed

lemma closes_from_step:
  assumes "i < length text"
  shows "closes_from text i d j \<longleftrightarrow>
           (j = i \<and> text ! i = CHR ''}'' \<and> d - 1 = 0) \<or>
           (i < j \<and> closes_from text (Suc i) (d + brace_delta (text ! i)) j)"
proof (cases "i < j")
  case True
  then show ?thesis
    using assms depth_after_step [of i "text" j]
    by (auto simp: closes_from_def)
next
  case False
  show ?thesis
  proof (cases "j = i")
    case True
    then show ?thesis
      using assms depth_after_step [of i "text" i]
      by (auto simp: closes_from_def brace_delta_def)
  next
    case False
    with \<open>\<not> i < j\<close> show ?thesis
      by (auto simp: closes_from_def)
  qed
qed

lemma brace_walk_Some:
  "brace_walk text i d = Some j \<Longrightarrow>
     closes_from text i d j \<and> (\<forall>k. k < j \<longrightarrow> \<not> closes_from text i d k)"
proof (induction "text" i d rule: brace_walk.induct)
  case (1 t i d)
  from "1.prems" have len: "i < length t"
    by (auto simp: brace_walk.simps [of t i d] split: if_splits)
  note step = closes_from_step [OF len]
  consider (lbrace) "t ! i = CHR ''{''"
    | (rbrace) "t ! i = CHR ''}''" "d - 1 = 0"
    | (inner) "t ! i = CHR ''}''" "d - 1 \<noteq> 0"
    | (other) "t ! i \<noteq> CHR ''{''" "t ! i \<noteq> CHR ''}''"
    by blast
  then show ?case
  proof cases
    case lbrace
    with "1.prems" len have "brace_walk t (i + 1) (d + 1) = Some j"
      by (simp add: brace_walk.simps [of t i d])
    from "1.IH"(1) [OF len refl lbrace this] lbrace show ?thesis
      by (auto simp: step brace_delta_def dest: closes_from_le)
  next
    case rbrace
    with "1.prems" len have "j = i"
      by (simp add: brace_walk.simps [of t i d])
    with rbrace show ?thesis
      by (auto simp: step)
  next
    case inner
    then have no: "t ! i \<noteq> CHR ''{''" by simp
    from inner no "1.prems" len have "brace_walk t (i + 1) (d - 1) = Some j"
      by (simp add: brace_walk.simps [of t i d])
    from "1.IH"(2) [OF len refl no inner(1) inner(2) this] inner show ?thesis
      by (auto simp: step brace_delta_def dest: closes_from_le)
  next
    case other
    with "1.prems" len have "brace_walk t (i + 1) d = Some j"
      by (simp add: brace_walk.simps [of t i d])
    from "1.IH"(3) [OF len refl other this] other show ?thesis
      by (auto simp: step brace_delta_def dest: closes_from_le)
  qed
qed

lemma brace_walk_None:
  "brace_walk text i d = None \<Longrightarrow> \<not> closes_from text i d j"
proof (induction "text" i d rule: brace_walk.induct)
  case (1 t i d)
  show ?case
  proof (cases "i < length t")
    case False
    then show ?thesis by (auto simp: closes_from_def)
  next
    case len: True
    note step = closes_from_step [OF len]
    consider (lbrace) "t ! i = CHR ''{''"
      | (rbrace) "t ! i = CHR ''}''" "d - 1 = 0"
      | (inner) "t ! i = CHR ''}''" "d - 1 \<noteq> 0"
      | (other) "t ! i \<noteq> CHR ''{''" "t ! i \<noteq> CHR ''}''"
      by blast
    then show ?thesis
    proof cases
      case lbrace
      with "1.prems" len have "brace_walk t (i + 1) (d + 1) = None"
        by (simp add: brace_walk.simps [of t i d])
      from "1.IH"(1) [OF len refl lbrace this] lbrace show ?thesis
        by (auto simp: step brace_delta_def dest: closes_from_le)
    next
      case rbrace
      with "1.prems" len show ?thesis
        by (simp add: brace_walk.simps [of t i d])
    next
      case inner
      then have no: "t ! i \<noteq> CHR ''{''" by simp
      from inner no "1.prems" len have "brace_walk t (i + 1) (d - 1) = None"
        by (simp add: brace_walk.simps [of t i d])
      from "1.IH"(2) [OF len refl no inner(1) inner(2) this] inner show ?thesis
        by (auto simp: step brace_delta_def dest: closes_from_le)
    next
      case other
      with "1.prems" len have "brace_walk t (i + 1) d = None"
        by (simp add: brace_walk.simps [of t i d])
      from "1.IH"(3) [OF len refl other this] other show ?thesis
        by (auto simp: step brace_delta_def dest: closes_from_le)
    qed
  qed
qed

lemma brace_walk_first_close:
  assumes "closes_at text bp ep" "\<forall>k. k < ep \<longrightarrow> \<not> closes_at text bp k"
  shows "brace_walk text bp 0 = Some ep"
proof (cases "brace_walk text bp 0")
  case None
  from brace_walk_None [OF this] assms(1) show ?thesis
    by (simp add: closes_at_def)
next
  case (Some j)
  from brace_walk_Some [OF this]
  have j: "closes_at text bp j" "\<forall>k. k < j \<longrightarrow> \<not> closes_at text bp k"
    by (simp_all add: closes_at_def)
  have "j = ep"
  proof (rule ccontr)
    assume "j \<noteq> ep"
    then consider "j < ep" | "ep < j" by linarith
    then show False using assms j by cases auto
  qed
  with Some show ?thesis by simp
qed

lemma brace_walk_no_close:
  assumes "\<forall>k. \<not> closes_at text bp k"
  shows "brace_walk text bp 0 = None"
proof (cases "brace_walk text bp 0")
  case (Some j)
  from brace_walk_Some [OF this] assms show ?thesis
    by (simp add: closes_at_def)
qed simp

subsection \<open>Finding a character, counting newlines\<close>

lemma find_from_Some_iff:
  "find_from text c start = Some bp \<longleftrightarrow>
     start \<le> bp \<and> bp < length text \<and> text ! bp = c \<and>
     (\<forall>k \<in> {start..<bp}. text ! k \<noteq> c)"
proof -
  have "find_from text c start = Some bp \<longleftrightarrow>
          List.find (\<lambda>i. text ! i = c) [start ..< length text] = Some bp"
    by (simp split: option.splits)
  also have "\<dots> \<longleftrightarrow> (\<exists>i < length text - start. text ! (start + i) = c \<and> bp = start + i \<and>
                  (\<forall>j < i. text ! (start + j) \<noteq> c))"
    by (auto simp: find_Some_iff)
  also have "\<dots> \<longleftrightarrow> start \<le> bp \<and> bp < length text \<and> text ! bp = c \<and>
                  (\<forall>k \<in> {start..<bp}. text ! k \<noteq> c)"
  proof
    assume "\<exists>i < length text - start. text ! (start + i) = c \<and> bp = start + i \<and>
                  (\<forall>j < i. text ! (start + j) \<noteq> c)"
    then obtain i where i: "i < length text - start" "text ! (start + i) = c" "bp = start + i"
      "\<forall>j < i. text ! (start + j) \<noteq> c" by blast
    have "\<forall>k \<in> {start..<bp}. text ! k \<noteq> c"
    proof
      fix k assume "k \<in> {start..<bp}"
      then have "k - start < i" "k = start + (k - start)" using i(3) by auto
      with i(4) show "text ! k \<noteq> c" by metis
    qed
    with i show "start \<le> bp \<and> bp < length text \<and> text ! bp = c \<and>
                  (\<forall>k \<in> {start..<bp}. text ! k \<noteq> c)" by auto
  next
    assume a: "start \<le> bp \<and> bp < length text \<and> text ! bp = c \<and>
                  (\<forall>k \<in> {start..<bp}. text ! k \<noteq> c)"
    then have "bp - start < length text - start \<and> text ! (start + (bp - start)) = c \<and>
       bp = start + (bp - start) \<and> (\<forall>j < bp - start. text ! (start + j) \<noteq> c)"
      by auto
    then show "\<exists>i < length text - start. text ! (start + i) = c \<and> bp = start + i \<and>
                  (\<forall>j < i. text ! (start + j) \<noteq> c)" by blast
  qed
  finally show ?thesis .
qed

lemma find_from_None_iff:
  "find_from text c start = None \<longleftrightarrow> (\<forall>k \<in> {start..<length text}. text ! k \<noteq> c)"
proof -
  have "find_from text c start = None \<longleftrightarrow>
          List.find (\<lambda>i. text ! i = c) [start ..< length text] = None"
    by (simp split: option.splits)
  then show ?thesis
    by (auto simp: find_None_iff)
qed

lemma count_str_single: "count_str [c] s = count_list s c"
proof (induction s)
  case Nil
  then show ?case by (simp add: count_str.simps [of "[c]" "[]"])
next
  case (Cons x xs)
  then show ?case by (simp add: count_str.simps [of "[c]" "x # xs"])
qed

text \<open>The 1-based line number of a position: one more than the number of newline
  characters before it.\<close>

definition line_number :: "string \<Rightarrow> nat \<Rightarrow> int" where
  "line_number text pos = int (count_list (take pos text) newline) + 1"

lemma count_upto_newline: "count_upto text [newline] pos + 1 = line_number text pos"
  by (simp add: count_upto_def line_number_def count_str_single)

lemma count_list_append: "count_list (xs @ ys) c = count_list xs c + count_list ys c"
  by (induction xs) auto

lemma line_number_mono:
  assumes "a \<le> b"
  shows "line_number text a \<le> line_number text b"
proof -
  from assms have "take b text = take a text @ take (b - a) (drop a text)"
    by (metis le_add_diff_inverse take_add)
  then show ?thesis
    by (simp add: line_number_def count_list_append)
qed

lemma line_number_pos: "1 \<le> line_number text a"
  by (simp add: line_number_def)

lemma method_range_Some:
  assumes "m_end m \<le> bp" "bp < length text" "text ! bp = CHR ''{''"
    and "\<forall>k \<in> {m_end m..<bp}. text ! k \<noteq> CHR ''{''"
    and "closes_at text bp ep" "\<forall>k \<in> {bp..<ep}. \<not> closes_at text bp k"
  shows "method_range text m = Some (line_number text bp, line_number text ep)"
proof -
  from assms(1-4) have f: "find_from text CHR ''{'' (m_end m) = Some bp"
    by (simp only: find_from_Some_iff)
  have "\<forall>k. k < ep \<longrightarrow> \<not> closes_at text bp k"
  proof (intro allI impI)
    fix k assume "k < ep"
    show "\<not> closes_at text bp k"
    proof (cases "bp \<le> k")
      case True
      with \<open>k < ep\<close> assms(6) show ?thesis by simp
    next
      case False
      then show ?thesis by (auto simp: closes_at_def dest: closes_from_le)
    qed
  qed
  from brace_walk_first_close [OF assms(5) this] f show ?thesis
    by (simp add: method_range_def count_upto_newline)
qed

lemma method_range_None:
  assumes "(\<forall>k \<in> {m_end m..<length text}. text ! k \<noteq> CHR ''{'') \<or>
           (\<exists>bp. m_end m \<le> bp \<and> bp < length text \<and> text ! bp = CHR ''{'' \<and>
                 (\<forall>k \<in> {m_end m..<bp}. text ! k \<noteq> CHR ''{'') \<and>
                 (\<forall>k \<in> {bp..<length text}. \<not> closes_at text bp k))"
  shows "method_range text m = None"
  using assms
proof
  assume "\<forall>k \<in> {m_end m..<length text}. text ! k \<noteq> CHR ''{''"
  then have "find_from text CHR ''{'' (m_end m) = None"
    by (simp only: find_from_None_iff)
  then show ?thesis by (simp add: method_range_def)
next
  assume "\<exists>bp. m_end m \<le> bp \<and> bp < length text \<and> text ! bp = CHR ''{'' \<and>
                 (\<forall>k \<in> {m_end m..<bp}. text ! k \<noteq> CHR ''{'') \<and>
                 (\<forall>k \<in> {bp..<length text}. \<not> closes_at text bp k)"
  then obtain bp where bp: "m_end m \<le> bp" "bp < length text" "text ! bp = CHR ''{''"
    "\<forall>k \<in> {m_end m..<bp}. text ! k \<noteq> CHR ''{''"
    "\<forall>k \<in> {bp..<length text}. \<not> closes_at text bp k" by blast
  from bp(1-4) have f: "find_from text CHR ''{'' (m_end m) = Some bp"
    by (simp only: find_from_Some_iff)
  have "\<forall>k. \<not> closes_at text bp k"
  proof
    fix k
    show "\<not> closes_at text bp k"
    proof (cases "bp \<le> k \<and> k < length text")
      case True
      with bp(5) show ?thesis by simp
    next
      case False
      then show ?thesis by (auto simp: closes_at_def closes_from_def)
    qed
  qed
  from brace_walk_no_close [OF this] f show ?thesis
    by (simp add: method_range_def)
qed

lemma ranges_among_append:
  "ranges_among text (xs @ ys) name = ranges_among text xs name @ ranges_among text ys name"
  by (induction xs) (simp_all add: ranges_among_Nil ranges_among_Cons)

lemma find_method_ranges_lookup:
  assumes "name \<in> method_names"
  shows "\<exists>rs. find_method_ranges text = Inr rs \<and> map_of rs name = Some (ranges_of text name)"
  using assms by (auto simp: find_method_ranges_eq method_names_def)

text \<open>
  C1: a declaration \<open>m\<close> found by \<open>METHOD_START_RE\<close> whose signature is followed by an
  opening brace (the first one at or after \<open>m.end()\<close> is at \<open>bp\<close>) and whose nesting
  depth, counted from that brace, first returns to zero at the closing brace at \<open>ep\<close>,
  gets exactly one range: in the list of its method name the ranges of the earlier
  declarations are followed by the one range of \<open>m\<close> and then by the ranges of the later
  declarations. The range starts at the line of \<open>bp\<close>, ends at the line of \<open>ep\<close>, and the
  end line is not before the start line.
\<close>

theorem C1_declaration_range:
  assumes "finditer METHOD_START_RE text = pre @ m # post"
    and "m_end m \<le> bp" "bp < length text" "text ! bp = CHR ''{''"
    and "\<forall>k \<in> {m_end m..<bp}. text ! k \<noteq> CHR ''{''"
    and "closes_at text bp ep" "\<forall>k \<in> {bp..<ep}. \<not> closes_at text bp k"
  shows "\<exists>name rs. name \<in> method_names \<and> group1 text m = Some name \<and>
           find_method_ranges text = Inr rs \<and>
           map_of rs name =
             Some (ranges_among text pre name
                   @ [(line_number text bp, line_number text ep)]
                   @ ranges_among text post name) \<and>
           line_number text bp \<le> line_number text ep"
proof -
  from assms(1) have "m \<in> set (finditer METHOD_START_RE text)" by simp
  from METHOD_START_RE_group1 [OF this] obtain name
    where name: "name \<in> method_names" "group1 text m = Some name" by blast
  from find_method_ranges_lookup [OF name(1)] obtain rs
    where rs: "find_method_ranges text = Inr rs" "map_of rs name = Some (ranges_of text name)"
    by blast
  have r: "method_range text m = Some (line_number text bp, line_number text ep)"
    using assms(2-7) by (rule method_range_Some)
  have "ranges_of text name =
          ranges_among text pre name @ [(line_number text bp, line_number text ep)]
          @ ranges_among text post name"
    using name(2) r
    by (simp add: ranges_of_def assms(1) ranges_among_append ranges_among_Cons)
  moreover from assms(6) have "bp \<le> ep"
    by (auto simp: closes_at_def dest: closes_from_le)
  then have "line_number text bp \<le> line_number text ep"
    by (rule line_number_mono)
  ultimately show ?thesis
    using name rs by auto
qed

theorem C1_declaration_range_witness:
  "finditer METHOD_START_RE ''void Update() {\<newline>  if (x) { y(); }\<newline>}''
     = [] @ \<lparr>m_start = 0, m_end = 12, m_group1 = Some (5, 11)\<rparr> # []
   \<and> closes_at ''void Update() {\<newline>  if (x) { y(); }\<newline>}'' 14 34
   \<and> find_method_ranges ''void Update() {\<newline>  if (x) { y(); }\<newline>}''
       = Inr [(''Update'', [(1, 3)]), (''FixedUpdate'', []), (''LateUpdate'', [])]
   \<and> (\<exists>name rs. name \<in> method_names \<and>
         group1 ''void Update() {\<newline>  if (x) { y(); }\<newline>}''
           \<lparr>m_start = 0, m_end = 12, m_group1 = Some (5, 11)\<rparr> = Some name \<and>
         find_method_ranges ''void Update() {\<newline>  if (x) { y(); }\<newline>}'' = Inr rs \<and>
         map_of rs name = Some [(1, 3)])"
proof -
  let ?text = "''void Update() {\<newline>  if (x) { y(); }\<newline>}''"
  let ?m = "\<lparr>m_start = 0, m_end = 12, m_group1 = Some (5, 11)\<rparr>"
  have 1: "finditer METHOD_START_RE ?text = [] @ ?m # []" by code_simp
  have 2: "m_end ?m \<le> 14" by simp
  have 3: "14 < length ?text" by simp
  have 4: "?text ! 14 = CHR ''{''" by simp
  have "\<forall>k \<in> set [12..<14]. ?text ! k \<noteq> CHR ''{''" by code_simp
  then have 5: "\<forall>k \<in> {m_end ?m..<14}. ?text ! k \<noteq> CHR ''{''"
    by (simp only: atLeastLessThan_upt match.simps)
  have 6: "closes_at ?text 14 34" by code_simp
  have "\<forall>k \<in> set [14..<34]. \<not> closes_at ?text 14 k" by code_simp
  then have 7: "\<forall>k \<in> {14..<34}. \<not> closes_at ?text 14 k"
    by (simp only: atLeastLessThan_upt)
  have 8: "line_number ?text 14 = 1" by code_simp
  have 9: "line_number ?text 34 = 3" by code_simp
  have 10: "find_method_ranges ?text
       = Inr [(''Update'', [(1, 3)]), (''FixedUpdate'', []), (''LateUpdate'', [])]"
    by code_simp
  from C1_declaration_range [OF 1 2 3 4 5 6 7]
  have "\<exists>name rs. name \<in> method_names \<and> group1 ?text ?m = Some name \<and>
           find_method_ranges ?text = Inr rs \<and> map_of rs name = Some [(1, 3)]"
    by (simp only: ranges_among_Nil 8 9 append.simps) blast
  with 1 6 10 show ?thesis by (intro conjI)
qed

text \<open>
  C2: a declaration with no opening brace at or after the end of its signature, or whose
  nesting depth, counted from its first opening brace, never returns to zero before the
  end of the text, contributes no range: the list of its method name consists of the
  ranges of the other declarations only. \<open>find_method_ranges\<close> raises nothing: for every
  text it returns a dictionary, and for the empty text the one with three empty lists.
\<close>

theorem C2_skipped_declaration:
  assumes "finditer METHOD_START_RE text = pre @ m # post"
    and "(\<forall>k \<in> {m_end m..<length text}. text ! k \<noteq> CHR ''{'') \<or>
         (\<exists>bp. m_end m \<le> bp \<and> bp < length text \<and> text ! bp = CHR ''{'' \<and>
               (\<forall>k \<in> {m_end m..<bp}. text ! k \<noteq> CHR ''{'') \<and>
               (\<forall>k \<in> {bp..<length text}. \<not> closes_at text bp k))"
  shows "(\<exists>name rs. name \<in> method_names \<and> group1 text m = Some name \<and>
            find_method_ranges text = Inr rs \<and>
            map_of rs name = Some (ranges_among text pre name @ ranges_among text post name))
         \<and> (\<forall>t. \<exists>rs. find_method_ranges t = Inr rs)
         \<and> find_method_ranges '''' =
             Inr [(''Update'', []), (''FixedUpdate'', []), (''LateUpdate'', [])]"
proof -
  from assms(1) have "m \<in> set (finditer METHOD_START_RE text)" by simp
  from METHOD_START_RE_group1 [OF this] obtain name
    where name: "name \<in> method_names" "group1 text m = Some name" by blast
  from find_method_ranges_lookup [OF name(1)] obtain rs
    where rs: "find_method_ranges text = Inr rs" "map_of rs name = Some (ranges_of text name)"
    by blast
  have r: "method_range text m = None"
    using assms(2) by (rule method_range_None)
  have "ranges_of text name = ranges_among text pre name @ ranges_among text post name"
    using name(2) r
    by (simp add: ranges_of_def assms(1) ranges_among_append ranges_among_Cons)
  with name rs have "\<exists>name rs. name \<in> method_names \<and> group1 text m = Some name \<and>
            find_method_ranges text = Inr rs \<and>
            map_of rs name = Some (ranges_among text pre name @ ranges_among text post name)"
    by auto
  moreover have "\<forall>t. \<exists>rs. find_method_ranges t = Inr rs"
    by (simp add: find_method_ranges_eq)
  moreover have "finditer METHOD_START_RE '''' = []"
    by code_simp
  then have "find_method_ranges '''' =
             Inr [(''Update'', []), (''FixedUpdate'', []), (''LateUpdate'', [])]"
    by (simp add: find_method_ranges_def)
  ultimately show ?thesis by blast
qed

theorem C2_skipped_declaration_witness:
  "finditer METHOD_START_RE ''void Update() { if (x) { y(); }''
     = [] @ \<lparr>m_start = 0, m_end = 12, m_group1 = Some (5, 11)\<rparr> # []
   \<and> ''void Update() { if (x) { y(); }'' ! 14 = CHR ''{''
   \<and> \<not> (\<exists>k \<in> {14..<31}. closes_at ''void Update() { if (x) { y(); }'' 14 k)
   \<and> find_method_ranges ''void Update() { if (x) { y(); }''
       = Inr [(''Update'', []), (''FixedUpdate'', []), (''LateUpdate'', [])]
   \<and> (\<exists>name rs. name \<in> method_names \<and>
         group1 ''void Update() { if (x) { y(); }''
           \<lparr>m_start = 0, m_end = 12, m_group1 = Some (5, 11)\<rparr> = Some name \<and>
         find_method_ranges ''void Update() { if (x) { y(); }'' = Inr rs \<and>
         map_of rs name = Some [])"
proof -
  let ?text = "''void Update() { if (x) { y(); }''"
  let ?m = "\<lparr>m_start = 0, m_end = 12, m_group1 = Some (5, 11)\<rparr>"
  have 1: "finditer METHOD_START_RE ?text = [] @ ?m # []" by code_simp
  have len: "length ?text = 31" by simp
  have 2: "m_end ?m \<le> 14" by simp
  have 3: "14 < length ?text" by simp
  have 4: "?text ! 14 = CHR ''{''" by simp
  have "\<forall>k \<in> set [12..<14]. ?text ! k \<noteq> CHR ''{''" by code_simp
  then have 5: "\<forall>k \<in> {m_end ?m..<14}. ?text ! k \<noteq> CHR ''{''"
    by (simp only: atLeastLessThan_upt match.simps)
  have "\<forall>k \<in> set [14..<31]. \<not> closes_at ?text 14 k" by code_simp
  then have c7: "\<forall>k \<in> {14..<31}. \<not> closes_at ?text 14 k"
    by (simp only: atLeastLessThan_upt)
  then have 7: "\<forall>k \<in> {14..<length ?text}. \<not> closes_at ?text 14 k"
    by (simp only: len)
  have 10: "find_method_ranges ?text
       = Inr [(''Update'', []), (''FixedUpdate'', []), (''LateUpdate'', [])]"
    by code_simp
  from 2 3 4 5 7
  have "m_end ?m \<le> 14 \<and> 14 < length ?text \<and> ?text ! 14 = CHR ''{'' \<and>
               (\<forall>k \<in> {m_end ?m..<14}. ?text ! k \<noteq> CHR ''{'') \<and>
               (\<forall>k \<in> {14..<length ?text}. \<not> closes_at ?text 14 k)"
    by (intro conjI)
  then have "(\<forall>k \<in> {m_end ?m..<length ?text}. ?text ! k \<noteq> CHR ''{'') \<or>
         (\<exists>bp. m_end ?m \<le> bp \<and> bp < length ?text \<and> ?text ! bp = CHR ''{'' \<and>
               (\<forall>k \<in> {m_end ?m..<bp}. ?text ! k \<noteq> CHR ''{'') \<and>
               (\<forall>k \<in> {bp..<length ?text}. \<not> closes_at ?text bp k))"
    by (intro disjI2 exI [of _ 14])
  from C2_skipped_declaration [OF 1 this]
  have "\<exists>name rs. name \<in> method_names \<and> group1 ?text ?m = Some name \<and>
           find_method_ranges ?text = Inr rs \<and> map_of rs name = Some []"
    by (simp only: ranges_among_Nil append.simps)
  moreover from c7 have "\<not> (\<exists>k \<in> {14..<31}. closes_at ?text 14 k)"
    by (simp only: bex_simps)
  ultimately show ?thesis using 1 4 10 by (intro conjI)
qed

subsection \<open>Each part of the scan appends its rows\<close>

lemma foldl_append_row:
  "foldl (\<lambda>findings m. findings @ [g m]) findings ms = findings @ map g ms"
  by (induction ms arbitrary: findings) simp_all

lemma scan_using_append:
  "scan_using path text findings = findings @ scan_using path text []"
  by (simp add: scan_using_def split: option.splits)

lemma scan_empty_catch_append:
  "scan_empty_catch path text findings = findings @ scan_empty_catch path text []"
  by (simp add: scan_empty_catch_def foldl_append_row)

lemma scan_async_void_append:
  "scan_async_void path text findings = findings @ scan_async_void path text []"
  by (simp add: scan_async_void_def foldl_append_row)

lemma scan_unsubscribe_append:
  "scan_unsubscribe path text findings = findings @ scan_unsubscribe path text []"
  by (simp add: scan_unsubscribe_def)

lemma scan_coroutine_append:
  "scan_coroutine path text findings = findings @ scan_coroutine path text []"
  by (simp add: scan_coroutine_def)

lemma scan_body_append:
  "scan_body path method_name lines findings r =
     findings @ scan_body path method_name lines [] r"
  by (cases r) (simp add: scan_body_def Let_def)

lemma foldl_scan_body:
  "foldl (scan_body path method_name lines) findings rs =
     findings @ concat (map (scan_body path method_name lines []) rs)"
proof (induction rs arbitrary: findings)
  case Nil
  then show ?case by simp
next
  case (Cons r rs)
  show ?case
    by (simp add: Cons.IH) (simp add: scan_body_append [of _ _ _ findings])
qed

lemma foldl_concat_rows:
  "foldl (\<lambda>findings (method_name, rs). findings @ g method_name rs) findings ps =
     findings @ concat (map (\<lambda>(method_name, rs). g method_name rs) ps)"
  by (induction ps arbitrary: findings) (simp_all add: split_def)

lemma scan_methods_append:
  "scan_methods path lines method_ranges findings =
     findings @ concat (map (\<lambda>(method_name, rs).
                  concat (map (scan_body path method_name lines []) rs)) method_ranges)"
  by (simp add: scan_methods_def foldl_scan_body foldl_concat_rows)

text \<open>The rows one range gives, in the order of the four tests.\<close>

lemma scan_body_rows:
  "scan_body path method_name lines [] (s, e) =
     (if search expensive_call_in_update (body_text lines (s, e)) \<noteq> None
      then [\<lparr>file = path, line = s, severity = ''warn'',
             rule = lower method_name @ ''-expensive-call'',
             detail = ''Potentially expensive call inside '' @ method_name @ ''().''\<rparr>]
      else [])
     @ (if search linq_in_update (body_text lines (s, e)) \<noteq> None
      then [\<lparr>file = path, line = s, severity = ''info'',
             rule = lower method_name @ ''-linq-allocation'',
             detail = ''LINQ usage inside '' @ method_name @ ''() can allocate per-frame.''\<rparr>]
      else [])
     @ (if search debug_in_update (body_text lines (s, e)) \<noteq> None
      then [\<lparr>file = path, line = s, severity = ''info'',
             rule = lower method_name @ ''-debuglog'',
             detail = ''Debug logging inside '' @ method_name @ ''() can be noisy.''\<rparr>]
      else [])
     @ (if method_name = ''FixedUpdate''
           \<and> search fixedupdate_physics_calls (body_text lines (s, e)) \<noteq> None
      then [\<lparr>file = path, line = s, severity = ''ok'', rule = ''fixedupdate-physics'',
             detail = ''Physics calls in FixedUpdate (generally correct).''\<rparr>]
      else [])"
  by (simp add: scan_body_def Let_def)

text \<open>The rule identifiers of the rows of one range, in table order.\<close>

definition body_rules :: "string \<Rightarrow> string list" where
  "body_rules method_name =
     [lower method_name @ ''-expensive-call'', lower method_name @ ''-linq-allocation'',
      lower method_name @ ''-debuglog'', ''fixedupdate-physics'']"

lemma lower_FixedUpdate: "lower ''FixedUpdate'' = ''fixedupdate''"
  by code_simp

lemma lower_Update: "lower ''Update'' = ''update''"
  by code_simp

lemma lower_LateUpdate: "lower ''LateUpdate'' = ''lateupdate''"
  by code_simp

lemma last_neq: "last xs \<noteq> last ys \<Longrightarrow> xs \<noteq> ys"
  by auto

subsection \<open>Claims about the rows of one range\<close>

lemma body_rules_distinct: "distinct (body_rules method_name)"
proof -
  have "lower method_name @ ''-expensive-call'' \<noteq> ''fixedupdate-physics''"
    by (rule last_neq) simp
  moreover have "lower method_name @ ''-linq-allocation'' \<noteq> ''fixedupdate-physics''"
    by (rule last_neq) simp
  moreover have "lower method_name @ ''-debuglog'' \<noteq> ''fixedupdate-physics''"
    by (rule last_neq) simp
  ultimately show ?thesis
    by (simp add: body_rules_def)
qed

lemma scan_body_rules_subseq:
  "subseq (map rule (scan_body path method_name lines [] (s, e))) (body_rules method_name)"
proof -
  let ?flags = "[search expensive_call_in_update (body_text lines (s, e)) \<noteq> None,
                 search linq_in_update (body_text lines (s, e)) \<noteq> None,
                 search debug_in_update (body_text lines (s, e)) \<noteq> None,
                 method_name = ''FixedUpdate''
                   \<and> search fixedupdate_physics_calls (body_text lines (s, e)) \<noteq> None]"
  have "map rule (scan_body path method_name lines [] (s, e)) =
          map snd (filter fst (zip ?flags (body_rules method_name)))"
    unfolding scan_body_rows body_rules_def by simp
  moreover have "subseq (map snd (filter fst (zip ?flags (body_rules method_name))))
                   (map snd (zip ?flags (body_rules method_name)))"
    by (intro subseq_map subseq_filter_left)
  moreover have "map snd (zip ?flags (body_rules method_name)) = body_rules method_name"
    by (simp add: body_rules_def)
  ultimately show ?thesis by simp
qed

lemma distinct_filter_le_1:
  "distinct (map g xs) \<Longrightarrow> length (filter (\<lambda>x. g x = y) xs) \<le> 1"
  by (induction xs) (auto simp: filter_empty_conv image_iff)

lemma scan_body_line:
  "f \<in> set (scan_body path method_name lines [] (s, e)) \<Longrightarrow> line f = s \<and> file f = path"
  unfolding scan_body_rows by (auto split: if_splits)

text \<open>
  C3: for a range \<open>(s, e)\<close> of a method, the scan appends rows \<open>new\<close> to the findings;
  among them no rule identifier occurs twice, every row has line \<open>s\<close>, and the rule
  identifiers are a subsequence of the four body-scope rules in table order. This holds
  for every content of the lines, so however often a pattern occurs in the body; when the
  expensive-call pattern is found in the body there is exactly one row for that rule.
\<close>

theorem C3_one_row_per_rule_and_range:
  "scan_body path method_name lines findings (s, e) =
     findings @ scan_body path method_name lines [] (s, e)
   \<and> (\<forall>rl. length (filter (\<lambda>f. rule f = rl)
                 (scan_body path method_name lines [] (s, e))) \<le> 1)
   \<and> (\<forall>f \<in> set (scan_body path method_name lines [] (s, e)). line f = s)
   \<and> subseq (map rule (scan_body path method_name lines [] (s, e))) (body_rules method_name)
   \<and> (search expensive_call_in_update (body_text lines (s, e)) \<noteq> None \<longrightarrow>
        length (filter (\<lambda>f. rule f = lower method_name @ ''-expensive-call'')
                 (scan_body path method_name lines [] (s, e))) = 1)"
proof -
  let ?new = "scan_body path method_name lines [] (s, e)"
  have sub: "subseq (map rule ?new) (body_rules method_name)"
    by (rule scan_body_rules_subseq)
  then have "map rule ?new \<in> set (subseqs (body_rules method_name))"
    by (simp only: in_set_subseqs)
  then have "distinct (map rule ?new)"
    using body_rules_distinct by (rule subseqs_distinctD)
  then have one: "\<forall>rl. length (filter (\<lambda>f. rule f = rl) ?new) \<le> 1"
    by (intro allI distinct_filter_le_1)
  have "search expensive_call_in_update (body_text lines (s, e)) \<noteq> None \<longrightarrow>
        length (filter (\<lambda>f. rule f = lower method_name @ ''-expensive-call'') ?new) \<ge> 1"
  proof
    assume "search expensive_call_in_update (body_text lines (s, e)) \<noteq> None"
    then have "\<exists>f \<in> set ?new. rule f = lower method_name @ ''-expensive-call''"
      unfolding scan_body_rows by simp
    then have "filter (\<lambda>f. rule f = lower method_name @ ''-expensive-call'') ?new \<noteq> []"
      by (simp add: filter_empty_conv)
    then show "length (filter (\<lambda>f. rule f = lower method_name @ ''-expensive-call'') ?new) \<ge> 1"
      by (simp add: Suc_le_eq)
  qed
  with one have exact: "search expensive_call_in_update (body_text lines (s, e)) \<noteq> None \<longrightarrow>
        length (filter (\<lambda>f. rule f = lower method_name @ ''-expensive-call'') ?new) = 1"
    by (meson le_antisym)
  have app: "scan_body path method_name lines findings (s, e) = findings @ ?new"
    by (rule scan_body_append)
  have lines: "\<forall>f \<in> set ?new. line f = s"
    using scan_body_line by blast
  from app one lines sub exact show ?thesis
    by (intro conjI)
qed

theorem C3_one_row_per_rule_and_range_witness:
  "search expensive_call_in_update
     (body_text [''void Update() { GetComponent<A>(); GetComponent<B>(); }''] (1, 1)) \<noteq> None
   \<and> length (filter (\<lambda>f. rule f = lower ''Update'' @ ''-expensive-call'')
        (scan_body ''a.cs'' ''Update''
           [''void Update() { GetComponent<A>(); GetComponent<B>(); }''] [] (1, 1))) = 1
   \<and> \<not> (\<exists>f \<in> set (scan_body ''a.cs'' ''Update''
           [''void Update() { GetComponent<A>(); GetComponent<B>(); }''] [] (1, 1)). line f \<noteq> 1)"
proof -
  let ?lines = "[''void Update() { GetComponent<A>(); GetComponent<B>(); }'']"
  have h: "search expensive_call_in_update (body_text ?lines (1, 1)) \<noteq> None"
    by code_simp
  note c3 = C3_one_row_per_rule_and_range [of "''a.cs''" "''Update''" ?lines "[]" 1 1]
  from c3 h have "length (filter (\<lambda>f. rule f = lower ''Update'' @ ''-expensive-call'')
        (scan_body ''a.cs'' ''Update'' ?lines [] (1, 1))) = 1"
    by (elim conjE impE)
  moreover from c3 have "\<forall>f \<in> set (scan_body ''a.cs'' ''Update'' ?lines [] (1, 1)). line f = 1"
    by (elim conjE)
  then have "\<not> (\<exists>f \<in> set (scan_body ''a.cs'' ''Update'' ?lines [] (1, 1)). line f \<noteq> 1)"
    by (simp only: bex_simps not_not)
  ultimately show ?thesis using h by (intro conjI)
qed


subsection \<open>The order of the rows of one file\<close>

lemma scan_using_rows:
  "length (scan_using path text []) \<le> 1 \<and>
   (\<forall>f \<in> set (scan_using path text []). rule f = ''using-UnityEditor-in-runtime'')"
  by (simp add: scan_using_def split: option.splits)

lemma scan_empty_catch_rows:
  "\<forall>f \<in> set (scan_empty_catch path text []). rule f = ''empty-catch-block''"
  by (auto simp: scan_empty_catch_def foldl_append_row)

lemma scan_async_void_rows:
  "\<forall>f \<in> set (scan_async_void path text []). rule f = ''async-void''"
  by (auto simp: scan_async_void_def foldl_append_row)

lemma scan_unsubscribe_rows:
  "length (scan_unsubscribe path text []) \<le> 1 \<and>
   (\<forall>f \<in> set (scan_unsubscribe path text []). rule f = ''event-unsubscribe-missing'')"
  by (simp add: scan_unsubscribe_def)

lemma scan_coroutine_rows:
  "length (scan_coroutine path text []) \<le> 1 \<and>
   (\<forall>f \<in> set (scan_coroutine path text []). rule f = ''coroutine-stop-missing'')"
  by (simp add: scan_coroutine_def)

text \<open>The rows of the ranges of one method name, range after range.\<close>

definition method_rows :: "string \<Rightarrow> string \<Rightarrow> string \<Rightarrow> finding list" where
  "method_rows path text method_name =
     concat (map (scan_body path method_name (splitlines text) []) (ranges_of text method_name))"

lemma scan_file_eq:
  "scan_file path text findings =
     Inr (findings
          @ scan_using path text []
          @ scan_empty_catch path text []
          @ scan_async_void path text []
          @ scan_unsubscribe path text []
          @ scan_coroutine path text []
          @ method_rows path text ''Update''
          @ method_rows path text ''FixedUpdate''
          @ method_rows path text ''LateUpdate'')"
proof -
  let ?U = "scan_using path text []"
  let ?E = "scan_empty_catch path text []"
  let ?A = "scan_async_void path text []"
  let ?S = "scan_unsubscribe path text []"
  let ?C = "scan_coroutine path text []"
  have 1: "scan_using path text findings = findings @ ?U"
    by (rule scan_using_append)
  have 2: "scan_empty_catch path text (findings @ ?U) = findings @ ?U @ ?E"
    using scan_empty_catch_append [of path "text" "findings @ ?U"] by simp
  have 3: "scan_async_void path text (findings @ ?U @ ?E) = findings @ ?U @ ?E @ ?A"
    using scan_async_void_append [of path "text" "findings @ ?U @ ?E"] by simp
  have 4: "scan_unsubscribe path text (findings @ ?U @ ?E @ ?A) = findings @ ?U @ ?E @ ?A @ ?S"
    using scan_unsubscribe_append [of path "text" "findings @ ?U @ ?E @ ?A"] by simp
  have 5: "scan_coroutine path text (findings @ ?U @ ?E @ ?A @ ?S) =
             findings @ ?U @ ?E @ ?A @ ?S @ ?C"
    using scan_coroutine_append [of path "text" "findings @ ?U @ ?E @ ?A @ ?S"] by simp
  show ?thesis
    by (simp add: scan_file_def find_method_ranges_eq Let_def 1 2 3 4 5
          scan_methods_append method_rows_def)
qed

text \<open>
  C4: the rows a file adds to the findings are, in this order: the row of the
  editor-namespace import (at most one), the rows of the empty catch blocks, the rows of
  the async void methods, the row of the missing unsubscription (at most one), the row of
  the missing coroutine stop (at most one), and then for \<open>Update\<close>, \<open>FixedUpdate\<close> and
  \<open>LateUpdate\<close> in turn, range after range, the body-scope rows, whose rule identifiers
  follow the table order. The right-hand side is a term in the path and the text only:
  the same text always yields the same sequence.
\<close>

theorem C4_order_of_findings:
  "scan_file path text findings =
     Inr (findings
          @ scan_using path text []
          @ scan_empty_catch path text []
          @ scan_async_void path text []
          @ scan_unsubscribe path text []
          @ scan_coroutine path text []
          @ concat (map (\<lambda>method_name.
               concat (map (scan_body path method_name (splitlines text) [])
                            (ranges_of text method_name)))
              [''Update'', ''FixedUpdate'', ''LateUpdate'']))
   \<and> length (scan_using path text []) \<le> 1
   \<and> (\<forall>f \<in> set (scan_using path text []). rule f = ''using-UnityEditor-in-runtime'')
   \<and> (\<forall>f \<in> set (scan_empty_catch path text []). rule f = ''empty-catch-block'')
   \<and> (\<forall>f \<in> set (scan_async_void path text []). rule f = ''async-void'')
   \<and> length (scan_unsubscribe path text []) \<le> 1
   \<and> (\<forall>f \<in> set (scan_unsubscribe path text []). rule f = ''event-unsubscribe-missing'')
   \<and> length (scan_coroutine path text []) \<le> 1
   \<and> (\<forall>f \<in> set (scan_coroutine path text []). rule f = ''coroutine-stop-missing'')
   \<and> (\<forall>method_name lines s e.
         subseq (map rule (scan_body path method_name lines [] (s, e)))
           [lower method_name @ ''-expensive-call'', lower method_name @ ''-linq-allocation'',
            lower method_name @ ''-debuglog'', ''fixedupdate-physics''])"
proof -
  have a: "scan_file path text findings =
     Inr (findings
          @ scan_using path text []
          @ scan_empty_catch path text []
          @ scan_async_void path text []
          @ scan_unsubscribe path text []
          @ scan_coroutine path text []
          @ concat (map (\<lambda>method_name.
               concat (map (scan_body path method_name (splitlines text) [])
                            (ranges_of text method_name)))
              [''Update'', ''FixedUpdate'', ''LateUpdate'']))"
    by (simp add: scan_file_eq method_rows_def)
  have b: "\<forall>method_name lines s e.
         subseq (map rule (scan_body path method_name lines [] (s, e)))
           [lower method_name @ ''-expensive-call'', lower method_name @ ''-linq-allocation'',
            lower method_name @ ''-debuglog'', ''fixedupdate-physics'']"
    using scan_body_rules_subseq unfolding body_rules_def by blast
  from a scan_using_rows [of path "text"] scan_empty_catch_rows [of path "text"]
    scan_async_void_rows [of path "text"] scan_unsubscribe_rows [of path "text"]
    scan_coroutine_rows [of path "text"] b
  show ?thesis by (elim conjE) (intro conjI)
qed

theorem C4_order_of_findings_witness:
  "scan_file ''a.cs''
     ''using UnityEditor;\<newline>void Update(){Debug.Log(x);a+=Destroy(b);}'' [] =
     Inr ([]
          @ scan_using ''a.cs''
              ''using UnityEditor;\<newline>void Update(){Debug.Log(x);a+=Destroy(b);}'' []
          @ scan_empty_catch ''a.cs''
              ''using UnityEditor;\<newline>void Update(){Debug.Log(x);a+=Destroy(b);}'' []
          @ scan_async_void ''a.cs''
              ''using UnityEditor;\<newline>void Update(){Debug.Log(x);a+=Destroy(b);}'' []
          @ scan_unsubscribe ''a.cs''
              ''using UnityEditor;\<newline>void Update(){Debug.Log(x);a+=Destroy(b);}'' []
          @ scan_coroutine ''a.cs''
              ''using UnityEditor;\<newline>void Update(){Debug.Log(x);a+=Destroy(b);}'' []
          @ concat (map (\<lambda>method_name.
               concat (map (scan_body ''a.cs'' method_name
                 (splitlines
                   ''using UnityEditor;\<newline>void Update(){Debug.Log(x);a+=Destroy(b);}'') [])
                 (ranges_of
                   ''using UnityEditor;\<newline>void Update(){Debug.Log(x);a+=Destroy(b);}''
                   method_name)))
              [''Update'', ''FixedUpdate'', ''LateUpdate'']))
   \<and> map_sum id (map rule)
        (scan_file ''a.cs''
          ''using UnityEditor;\<newline>void Update(){Debug.Log(x);a+=Destroy(b);}'' []) =
       Inr [''using-UnityEditor-in-runtime'', ''event-unsubscribe-missing'',
            ''update-expensive-call'', ''update-debuglog'']"
proof -
  let ?text = "''using UnityEditor;\<newline>void Update(){Debug.Log(x);a+=Destroy(b);}''"
  have e: "map_sum id (map rule) (scan_file ''a.cs'' ?text []) =
       Inr [''using-UnityEditor-in-runtime'', ''event-unsubscribe-missing'',
            ''update-expensive-call'', ''update-debuglog'']"
    by code_simp
  from C4_order_of_findings [of "''a.cs''" ?text "[]"] e show ?thesis
    by (elim conjE) (intro conjI)
qed

subsection \<open>Line numbers of the file-scope rows\<close>

text \<open>
  C5 says that every row has a line between 1 and the number of lines of the file. The
  three file-scope rules that report a match position count occurrences of a backslash
  followed by the letter n, where \<open>find_method_ranges\<close> counts newline characters. A file
  of one line whose comment holds two such pairs before an \<open>async void\<close> method gets a
  row with line 3.
\<close>

theorem C5_line_beyond_last_line:
  "length (splitlines (''/* '' @ [backslash, CHR ''n'', backslash, CHR ''n'']
                       @ '' */ async void Foo() { }'')) = 1
   \<and> map_sum id (map line)
        (scan_file ''a.cs'' (''/* '' @ [backslash, CHR ''n'', backslash, CHR ''n'']
                            @ '' */ async void Foo() { }'') []) = Inr [3]"
  by code_simp

lemma count_str_no_occurrence:
  "sub \<noteq> [] \<Longrightarrow> \<not> sublist sub s \<Longrightarrow> count_str sub s = 0"
proof (induction sub s rule: count_str.induct)
  case (1 sub s)
  show ?case
  proof (cases "length s < length sub")
    case True
    with "1.prems" show ?thesis by (simp add: count_str.simps [of sub s])
  next
    case False
    have neq: "take (length sub) s \<noteq> sub"
    proof
      assume "take (length sub) s = sub"
      then have "prefix sub s" by (metis take_is_prefix)
      with "1.prems"(2) show False by auto
    qed
    have "\<not> sublist sub (tl s)"
      using "1.prems"(2) sublist_tl sublist_order.order_trans by blast
    from "1.IH"(2) [OF "1.prems"(1) False neq "1.prems"(1) this] "1.prems"(1) False neq
    show ?thesis by (simp add: count_str.simps [of sub s])
  qed
qed

text \<open>The line the three rules give to a match:
  \<open>text.count("\\n", 0, m.start()) + 1\<close>.\<close>

definition reported_line :: "string \<Rightarrow> match \<Rightarrow> int" where
  "reported_line text m = count_upto text [backslash, CHR ''n''] (m_start m) + 1"

text \<open>
  C6: the rows of the editor-namespace import, of the empty catch blocks and of the async
  void methods carry the line \<open>reported_line text m\<close> of their match \<open>m\<close>, and that line is
  1 whenever no backslash followed by the letter n occurs in the text before the start
  of the match, on whatever line the match is.
\<close>

theorem C6_reported_line_is_one:
  "map line (scan_using path text []) =
     map (reported_line text)
       (case search using_unityeditor text of None \<Rightarrow> [] | Some m \<Rightarrow> [m])
   \<and> map line (scan_empty_catch path text []) =
       map (reported_line text) (finditer empty_catch text)
   \<and> map line (scan_async_void path text []) =
       map (reported_line text) (finditer async_void text)
   \<and> (\<forall>m. \<not> sublist [backslash, CHR ''n''] (take (m_start m) text)
          \<longrightarrow> reported_line text m = 1)"
proof -
  have 1: "map line (scan_using path text []) =
     map (reported_line text)
       (case search using_unityeditor text of None \<Rightarrow> [] | Some m \<Rightarrow> [m])"
    by (simp add: scan_using_def reported_line_def split: option.splits)
  have 2: "map line (scan_empty_catch path text []) =
       map (reported_line text) (finditer empty_catch text)"
    by (simp add: scan_empty_catch_def foldl_append_row reported_line_def)
  have 3: "map line (scan_async_void path text []) =
       map (reported_line text) (finditer async_void text)"
    by (simp add: scan_async_void_def foldl_append_row reported_line_def)
  have 4: "\<forall>m. \<not> sublist [backslash, CHR ''n''] (take (m_start m) text)
          \<longrightarrow> reported_line text m = 1"
    by (simp add: reported_line_def count_upto_def count_str_no_occurrence)
  from 1 2 3 4 show ?thesis by (intro conjI)
qed

theorem C6_reported_line_is_one_witness:
  "\<not> sublist [backslash, CHR ''n'']
       (take (m_start \<lparr>m_start = 2, m_end = 15, m_group1 = None\<rparr>)
          ''\<newline>\<newline>async void F()'')
   \<and> finditer async_void ''\<newline>\<newline>async void F()'' =
       [\<lparr>m_start = 2, m_end = 15, m_group1 = None\<rparr>]
   \<and> line_number ''\<newline>\<newline>async void F()'' 2 = 3
   \<and> reported_line ''\<newline>\<newline>async void F()''
         \<lparr>m_start = 2, m_end = 15, m_group1 = None\<rparr> = 1
   \<and> map line (scan_async_void ''a.cs'' ''\<newline>\<newline>async void F()'' []) = [1]"
proof -
  let ?text = "''\<newline>\<newline>async void F()''"
  let ?m = "\<lparr>m_start = 2, m_end = 15, m_group1 = None\<rparr>"
  have h: "\<not> sublist [backslash, CHR ''n''] (take (m_start ?m) ?text)"
    by code_simp
  have f: "finditer async_void ?text = [?m]"
    by code_simp
  have l: "line_number ?text 2 = 3"
    by code_simp
  note c6 = C6_reported_line_is_one [of "''a.cs''" ?text]
  from c6 h have r: "reported_line ?text ?m = 1"
    by (elim conjE allE [of _ ?m] impE)
  from c6 have "map line (scan_async_void ''a.cs'' ?text []) =
                  map (reported_line ?text) (finditer async_void ?text)"
    by (elim conjE)
  then have "map line (scan_async_void ''a.cs'' ?text []) = [1]"
    by (simp only: f r list.map)
  with h f l r show ?thesis by (intro conjI)
qed

subsection \<open>The missing unsubscription\<close>

lemma match_at_Lit:
  "match_at (Lit l) s i \<noteq> None \<longleftrightarrow> take (length l) (drop i s) = l"
  by (simp add: match_at_def)

lemma search_Lit_iff: "search (Lit l) s \<noteq> None \<longleftrightarrow> sublist l s"
proof -
  have "search (Lit l) s \<noteq> None \<longleftrightarrow> (\<exists>i \<le> length s. take (length l) (drop i s) = l)"
    unfolding search_def search_from_None_iff using match_at_Lit by auto
  also have "\<dots> \<longleftrightarrow> sublist l s"
  proof
    assume "\<exists>i \<le> length s. take (length l) (drop i s) = l"
    then obtain i where i: "take (length l) (drop i s) = l" by blast
    have "s = take i s @ take (length l) (drop i s) @ drop (length l) (drop i s)"
      by (simp only: append_take_drop_id)
    with i have "s = take i s @ l @ drop (length l) (drop i s)" by simp
    then show "sublist l s" unfolding sublist_def by blast
  next
    assume "sublist l s"
    then obtain ps ss where "s = ps @ l @ ss" unfolding sublist_def by blast
    then have "length ps \<le> length s \<and> take (length l) (drop (length ps) s) = l"
      by simp
    then show "\<exists>i \<le> length s. take (length l) (drop i s) = l" by blast
  qed
  finally show ?thesis .
qed

lemma scan_unsubscribe_eq:
  "scan_unsubscribe path text [] =
     (if sublist ''+='' text \<and> \<not> sublist ''-='' text
      then [\<lparr>file = path, line = 1, severity = ''info'', rule = ''event-unsubscribe-missing'',
             detail = ''Subscriptions detected but no obvious unsubscription; ensure to unsubscribe in OnDisable/OnDestroy.''\<rparr>]
      else [])"
  using search_Lit_iff [of "''+=''" "text"] search_Lit_iff [of "''-=''" "text"]
  by (simp add: scan_unsubscribe_def subscribe_event_def unsubscribe_event_def)

lemma subseq_member:
  "subseq xs ys \<Longrightarrow> x \<in> set xs \<Longrightarrow> x \<in> set ys"
  by (induction rule: list_emb.induct) auto

lemma scan_body_rule_in:
  assumes "f \<in> set (scan_body path method_name lines [] (s, e))"
  shows "rule f \<in> set (body_rules method_name)"
proof -
  from assms have "rule f \<in> set (map rule (scan_body path method_name lines [] (s, e)))"
    by simp
  with scan_body_rules_subseq [of path method_name lines s e] show ?thesis
    by (rule subseq_member)
qed

lemma filter_rule_Nil:
  assumes "\<forall>f \<in> set fs. rule f \<noteq> rl"
  shows "filter (\<lambda>f. rule f = rl) fs = []"
  using assms by (simp add: filter_empty_conv)

lemma method_rows_rule_in:
  assumes "f \<in> set (method_rows path text method_name)"
  shows "rule f \<in> set (body_rules method_name)"
proof -
  from assms obtain r where
    "f \<in> set (scan_body path method_name (splitlines text) [] r)"
    by (auto simp: method_rows_def)
  then show ?thesis
    using scan_body_rule_in by (cases r) blast
qed

lemma unsubscribe_rule_not_body:
  assumes "method_name \<in> method_names"
  shows "''event-unsubscribe-missing'' \<notin> set (body_rules method_name)"
proof -
  have "''event-unsubscribe-missing'' \<notin> set (body_rules ''Update'')"
    by (simp add: body_rules_def lower_Update)
  moreover have "''event-unsubscribe-missing'' \<notin> set (body_rules ''FixedUpdate'')"
    by (simp add: body_rules_def lower_FixedUpdate)
  moreover have "''event-unsubscribe-missing'' \<notin> set (body_rules ''LateUpdate'')"
    by (simp add: body_rules_def lower_LateUpdate)
  ultimately show ?thesis
    using assms unfolding method_names_def by blast
qed

lemma method_rows_no_unsubscribe:
  assumes "method_name \<in> method_names"
  shows "filter (\<lambda>f. rule f = ''event-unsubscribe-missing'')
           (method_rows path text method_name) = []"
proof (rule filter_rule_Nil, rule ballI)
  fix f assume "f \<in> set (method_rows path text method_name)"
  then have "rule f \<in> set (body_rules method_name)"
    by (rule method_rows_rule_in)
  with unsubscribe_rule_not_body [OF assms]
  show "rule f \<noteq> ''event-unsubscribe-missing''" by metis
qed

text \<open>
  C7: among the rows a file adds there is exactly one with the rule
  \<open>event-unsubscribe-missing\<close> when the text contains \<open>+=\<close> and does not contain \<open>-=\<close>, and
  that row has severity \<open>info\<close> and line 1; in every other case (both substrings, neither,
  or \<open>-=\<close> alone) there is none.
\<close>

theorem C7_unsubscribe_row:
  "\<exists>fs. scan_file path text [] = Inr fs \<and>
     filter (\<lambda>f. rule f = ''event-unsubscribe-missing'') fs =
       (if sublist ''+='' text \<and> \<not> sublist ''-='' text
        then [\<lparr>file = path, line = 1, severity = ''info'',
               rule = ''event-unsubscribe-missing'',
               detail = ''Subscriptions detected but no obvious unsubscription; ensure to unsubscribe in OnDisable/OnDestroy.''\<rparr>]
        else [])"
proof -
  let ?rl = "''event-unsubscribe-missing''"
  let ?keep = "filter (\<lambda>f. rule f = ?rl)"
  have u: "?keep (scan_using path text []) = []"
  proof (rule filter_rule_Nil, rule ballI)
    fix f assume "f \<in> set (scan_using path text [])"
    with scan_using_rows [of path "text"] have "rule f = ''using-UnityEditor-in-runtime''"
      by blast
    then show "rule f \<noteq> ?rl" by simp
  qed
  have e: "?keep (scan_empty_catch path text []) = []"
  proof (rule filter_rule_Nil, rule ballI)
    fix f assume "f \<in> set (scan_empty_catch path text [])"
    with scan_empty_catch_rows [of path "text"] have "rule f = ''empty-catch-block''"
      by blast
    then show "rule f \<noteq> ?rl" by simp
  qed
  have a: "?keep (scan_async_void path text []) = []"
  proof (rule filter_rule_Nil, rule ballI)
    fix f assume "f \<in> set (scan_async_void path text [])"
    with scan_async_void_rows [of path "text"] have "rule f = ''async-void''"
      by blast
    then show "rule f \<noteq> ?rl" by simp
  qed
  have c: "?keep (scan_coroutine path text []) = []"
  proof (rule filter_rule_Nil, rule ballI)
    fix f assume "f \<in> set (scan_coroutine path text [])"
    with scan_coroutine_rows [of path "text"] have "rule f = ''coroutine-stop-missing''"
      by blast
    then show "rule f \<noteq> ?rl" by simp
  qed
  have m1: "?keep (method_rows path text ''Update'') = []"
    by (rule method_rows_no_unsubscribe) (simp add: method_names_def)
  have m2: "?keep (method_rows path text ''FixedUpdate'') = []"
    by (rule method_rows_no_unsubscribe) (simp add: method_names_def)
  have m3: "?keep (method_rows path text ''LateUpdate'') = []"
    by (rule method_rows_no_unsubscribe) (simp add: method_names_def)
  have s: "?keep (scan_unsubscribe path text []) = scan_unsubscribe path text []"
    using scan_unsubscribe_rows [of path "text"] by (simp add: filter_id_conv)
  have "?keep ([] @ scan_using path text [] @ scan_empty_catch path text []
          @ scan_async_void path text [] @ scan_unsubscribe path text []
          @ scan_coroutine path text [] @ method_rows path text ''Update''
          @ method_rows path text ''FixedUpdate'' @ method_rows path text ''LateUpdate'')
        = scan_unsubscribe path text []"
    by (simp only: filter_append u e a c m1 m2 m3 s filter.simps append_Nil append_Nil2)
  then show ?thesis
    by (simp only: scan_file_eq scan_unsubscribe_eq [symmetric]) blast
qed

theorem C7_unsubscribe_row_witness:
  "sublist ''+='' ''x.Changed += OnChanged;'' \<and> \<not> sublist ''-='' ''x.Changed += OnChanged;''
   \<and> (\<exists>fs. scan_file ''a.cs'' ''x.Changed += OnChanged;'' [] = Inr fs \<and>
         filter (\<lambda>f. rule f = ''event-unsubscribe-missing'') fs =
           [\<lparr>file = ''a.cs'', line = 1, severity = ''info'',
             rule = ''event-unsubscribe-missing'',
             detail = ''Subscriptions detected but no obvious unsubscription; ensure to unsubscribe in OnDisable/OnDestroy.''\<rparr>])
   \<and> sublist ''-='' ''x.Changed += OnChanged; x.Changed -= OnChanged;''
   \<and> (\<exists>fs. scan_file ''a.cs'' ''x.Changed += OnChanged; x.Changed -= OnChanged;'' [] = Inr fs \<and>
         filter (\<lambda>f. rule f = ''event-unsubscribe-missing'') fs = [])"
proof -
  have 1: "sublist ''+='' ''x.Changed += OnChanged;''" by code_simp
  have 2: "\<not> sublist ''-='' ''x.Changed += OnChanged;''" by code_simp
  have 3: "sublist ''-='' ''x.Changed += OnChanged; x.Changed -= OnChanged;''" by code_simp
  from 1 2 have c1: "(sublist ''+='' ''x.Changed += OnChanged;''
                      \<and> \<not> sublist ''-='' ''x.Changed += OnChanged;'') = True"
    by (simp only: simp_thms)
  from 3 have c2: "(sublist ''+='' ''x.Changed += OnChanged; x.Changed -= OnChanged;''
                    \<and> \<not> sublist ''-='' ''x.Changed += OnChanged; x.Changed -= OnChanged;'') = False"
    by (simp only: simp_thms)
  note a = C7_unsubscribe_row [of "''a.cs''" "''x.Changed += OnChanged;''", unfolded c1 if_True]
  note b = C7_unsubscribe_row
    [of "''a.cs''" "''x.Changed += OnChanged; x.Changed -= OnChanged;''", unfolded c2 if_False]
  from 1 2 a 3 b show ?thesis by (intro conjI)
qed

subsection \<open>Matches that \<open>finditer\<close> cannot miss\<close>

lemma finditer_from_Cons:
  assumes "search_from r s pos = Some m"
  shows "finditer_from r s pos =
           m # finditer_from r s (if m_start m < m_end m then m_end m else Suc (m_end m))"
  using assms by (simp add: finditer_from.simps [of r s pos])

lemma finditer_from_starts:
  assumes "m \<in> set (finditer_from r s pos)"
  shows "pos \<le> m_start m"
proof -
  from finditer_from_member [OF assms] obtain i where "pos \<le> i" "match_at r s i = Some m"
    by blast
  with match_at_bounds [of r s i m] show ?thesis by simp
qed

text \<open>A match at \<open>p\<close> is reported when every match that starts before \<open>p\<close> is not empty
  and ends at \<open>p\<close> at the latest.\<close>

lemma finditer_from_hits:
  assumes "match_at r s p = Some m" "p \<le> length s" "pos \<le> p"
    and "\<forall>st m'. st < p \<and> match_at r s st = Some m' \<longrightarrow>
           m_start m' < m_end m' \<and> m_end m' \<le> p"
  shows "\<exists>ms1. finditer_from r s pos =
           ms1 @ m # finditer_from r s (if m_start m < m_end m then m_end m else Suc (m_end m))
           \<and> (\<forall>m' \<in> set ms1. m_end m' \<le> p)"
  using assms
proof (induction r s pos rule: finditer_from.induct)
  case (1 r s pos)
  note at_p = "1.prems"(1) and p_le = "1.prems"(2) and pos_le = "1.prems"(3)
    and before = "1.prems"(4)
  have "search_from r s pos \<noteq> None"
  proof
    assume "search_from r s pos = None"
    then have "\<forall>i. pos \<le> i \<and> i \<le> length s \<longrightarrow> match_at r s i = None"
      by (simp only: search_from_None_iff)
    with p_le pos_le have "match_at r s p = None" by blast
    with at_p show False by simp
  qed
  then obtain m0 where m0: "search_from r s pos = Some m0" by auto
  from search_from_Some [OF m0] obtain i where i: "pos \<le> i" "i \<le> length s"
    "match_at r s i = Some m0" "\<forall>k. pos \<le> k \<and> k < i \<longrightarrow> match_at r s k = None"
    by blast
  have "i \<le> p"
  proof (rule ccontr)
    assume "\<not> i \<le> p"
    with i(4) pos_le have "match_at r s p = None" by simp
    with at_p show False by simp
  qed
  show ?case
  proof (cases "i = p")
    case True
    with i(3) at_p have "m0 = m" by simp
    from finditer_from_Cons [OF m0] have "finditer_from r s pos =
        [] @ m # finditer_from r s (if m_start m < m_end m then m_end m else Suc (m_end m))"
      unfolding \<open>m0 = m\<close> by (simp only: append_Nil)
    moreover have "\<forall>m' \<in> set []. m_end m' \<le> p" by simp
    ultimately show ?thesis
      by (intro exI [of _ "[]"] conjI)
  next
    case False
    with \<open>i \<le> p\<close> have "i < p" by simp
    with before i(3) have "m_start m0 < m_end m0 \<and> m_end m0 \<le> p"
      by blast
    then have ne: "m_start m0 < m_end m0" and le: "m_end m0 \<le> p"
      by simp_all
    from ne have nxt: "(if m_start m0 < m_end m0 then m_end m0 else Suc (m_end m0)) = m_end m0"
      by simp
    from le have le': "(if m_start m0 < m_end m0 then m_end m0 else Suc (m_end m0)) \<le> p"
      by (simp only: nxt)
    from "1.IH" [OF m0 at_p p_le le' before]
    have "\<exists>ms1. finditer_from r s (m_end m0) =
           ms1 @ m # finditer_from r s (if m_start m < m_end m then m_end m else Suc (m_end m))
           \<and> (\<forall>m' \<in> set ms1. m_end m' \<le> p)"
      by (simp only: nxt)
    then obtain ms1 where ms1:
      "finditer_from r s (m_end m0) =
         ms1 @ m # finditer_from r s (if m_start m < m_end m then m_end m else Suc (m_end m))"
      "\<forall>m' \<in> set ms1. m_end m' \<le> p"
      by blast
    have "finditer_from r s pos = m0 # finditer_from r s (m_end m0)"
      using finditer_from_Cons [OF m0] by (simp only: nxt)
    then have "finditer_from r s pos =
         (m0 # ms1) @ m # finditer_from r s (if m_start m < m_end m then m_end m else Suc (m_end m))"
      by (simp only: ms1(1) append_Cons)
    moreover from ms1(2) le have "\<forall>m' \<in> set (m0 # ms1). m_end m' \<le> p"
      by simp
    ultimately show ?thesis
      by (intro exI [of _ "m0 # ms1"] conjI)
  qed
qed

lemma run_in_class:
  assumes "k < run c s i"
  shows "i + k < length s \<and> in_class c (s ! (i + k))"
proof -
  let ?w = "takeWhile (in_class c) (drop i s)"
  from assms have k: "k < length ?w" by (simp add: run_def)
  have len: "length ?w \<le> length s - i"
    using length_takeWhile_le [of "in_class c" "drop i s"] by simp
  with k have 1: "i + k < length s" by simp
  from k have "?w ! k \<in> set ?w" by (rule nth_mem)
  then have "in_class c (?w ! k)" by (rule set_takeWhileD [THEN conjunct2])
  moreover from k have "?w ! k = drop i s ! k" by (rule takeWhile_nth)
  moreover from 1 have "drop i s ! k = s ! (i + k)" by simp
  ultimately have "in_class c (s ! (i + k))" by simp
  with 1 show ?thesis by simp
qed

lemma ends_Star_iff:
  "(j, h) \<in> set (ends (Star c) s (i, g)) \<longleftrightarrow> h = g \<and> i \<le> j \<and> j \<le> i + run c s i"
proof
  assume "(j, h) \<in> set (ends (Star c) s (i, g))"
  then obtain k where "k < Suc (run c s i)" "j = i + k" "h = g"
    by auto
  then show "h = g \<and> i \<le> j \<and> j \<le> i + run c s i" by simp
next
  assume a: "h = g \<and> i \<le> j \<and> j \<le> i + run c s i"
  then have "j - i \<in> set (rev [0 ..< Suc (run c s i)])" "(j, h) = (i + (j - i), g)"
    by auto
  then show "(j, h) \<in> set (ends (Star c) s (i, g))"
    unfolding ends.simps set_map by (rule rev_image_eqI)
qed

lemma ends_Plus_iff:
  "(j, h) \<in> set (ends (Plus c) s (i, g)) \<longleftrightarrow> h = g \<and> i < j \<and> j \<le> i + run c s i"
proof
  assume "(j, h) \<in> set (ends (Plus c) s (i, g))"
  then obtain k where "1 \<le> k" "k < Suc (run c s i)" "j = i + k" "h = g"
    by auto
  then show "h = g \<and> i < j \<and> j \<le> i + run c s i" by simp
next
  assume a: "h = g \<and> i < j \<and> j \<le> i + run c s i"
  then have "j - i \<in> set (rev [1 ..< Suc (run c s i)])" "(j, h) = (i + (j - i), g)"
    by auto
  then show "(j, h) \<in> set (ends (Plus c) s (i, g))"
    unfolding ends.simps set_map by (rule rev_image_eqI)
qed

lemma ends_Word_boundary_iff:
  "(j, h) \<in> set (ends Word_boundary s (i, g)) \<longleftrightarrow> at_boundary s i \<and> j = i \<and> h = g"
  by auto

subsection \<open>The shape of a match of \<open>async_void\<close>\<close>

lemma run_members:
  assumes "i \<le> j" "j < k" "k \<le> i + run c s i"
  shows "j < length s \<and> in_class c (s ! j)"
proof -
  from assms have "j - i < run c s i" by simp
  from run_in_class [OF this] assms(1) show ?thesis by simp
qed

lemma async_void_shape:
  assumes "(e, h) \<in> set (ends async_void s (st, g))"
  shows "\<exists>k2 k4 k5 k6.
           at_boundary s st \<and> take 5 (drop st s) = ''async'' \<and>
           st + 5 < k2 \<and> k2 \<le> st + 5 + run Space s (st + 5) \<and>
           take 4 (drop k2 s) = ''void'' \<and>
           k2 + 4 < k4 \<and> k4 \<le> k2 + 4 + run Space s (k2 + 4) \<and>
           k4 < k5 \<and> k5 \<le> k4 + run Word s k4 \<and>
           k5 \<le> k6 \<and> k6 \<le> k5 + run Space s k5 \<and>
           take 1 (drop k6 s) = ''('' \<and> e = k6 + 1 \<and> h = g"
proof -
  from assms have "(e, h) \<in> set (ends (Seq Word_boundary (Seq (Lit ''async'')
      (Seq (Plus Space) (Seq (Lit ''void'') (Seq (Plus Space) (Seq (Plus Word)
      (Seq (Star Space) (Lit ''(''))))))))  s (st, g))"
    by (simp only: async_void_def seqs.simps)
  then obtain x1 x2 x3 x4 x5 x6 x7 where
    1: "x1 \<in> set (ends Word_boundary s (st, g))" and
    2: "x2 \<in> set (ends (Lit ''async'') s x1)" and
    3: "x3 \<in> set (ends (Plus Space) s x2)" and
    4: "x4 \<in> set (ends (Lit ''void'') s x3)" and
    5: "x5 \<in> set (ends (Plus Space) s x4)" and
    6: "x6 \<in> set (ends (Plus Word) s x5)" and
    7: "x7 \<in> set (ends (Star Space) s x6)" and
    8: "(e, h) \<in> set (ends (Lit ''('') s x7)"
    unfolding ends_Seq_iff by blast
  obtain k1 g1 where x1: "x1 = (k1, g1)" by (cases x1)
  obtain k1' g2 where x2: "x2 = (k1', g2)" by (cases x2)
  obtain k2 g3 where x3: "x3 = (k2, g3)" by (cases x3)
  obtain k3 g4 where x4: "x4 = (k3, g4)" by (cases x4)
  obtain k4 g5 where x5: "x5 = (k4, g5)" by (cases x5)
  obtain k5 g6 where x6: "x6 = (k5, g6)" by (cases x6)
  obtain k6 g7 where x7: "x7 = (k6, g7)" by (cases x7)
  have len: "length ''async'' = 5" "length ''void'' = 4" "length ''('' = 1"
    by simp_all
  from 1 have a1: "at_boundary s st" "k1 = st" "g1 = g"
    unfolding x1 ends_Word_boundary_iff by simp_all
  from 2 have a2: "take 5 (drop st s) = ''async''" "k1' = st + 5" "g2 = g"
    unfolding x1 x2 a1 ends_Lit_iff len by simp_all
  from 3 have a3: "st + 5 < k2" "k2 \<le> st + 5 + run Space s (st + 5)" "g3 = g"
    unfolding x2 x3 a2 ends_Plus_iff by simp_all
  from 4 have a4: "take 4 (drop k2 s) = ''void''" "k3 = k2 + 4" "g4 = g"
    unfolding x3 x4 a3 ends_Lit_iff len by simp_all
  from 5 have a5: "k2 + 4 < k4" "k4 \<le> k2 + 4 + run Space s (k2 + 4)" "g5 = g"
    unfolding x4 x5 a4 ends_Plus_iff by simp_all
  from 6 have a6: "k4 < k5" "k5 \<le> k4 + run Word s k4" "g6 = g"
    unfolding x5 x6 a5 ends_Plus_iff by simp_all
  from 7 have a7: "k5 \<le> k6" "k6 \<le> k5 + run Space s k5" "g7 = g"
    unfolding x6 x7 a6 ends_Star_iff by simp_all
  from 8 have a8: "take 1 (drop k6 s) = ''(''" "e = k6 + 1" "h = g"
    unfolding x7 a7 ends_Lit_iff len by simp_all
  from a1(1) a2(1) a3(1,2) a4(1) a5(1,2) a6(1,2) a7(1,2) a8 show ?thesis
    by blast
qed


lemma lit_members:
  assumes "take n (drop i s) = l" "length l = n" "i \<le> j" "j < i + n"
  shows "j < length s \<and> s ! j = l ! (j - i)"
proof -
  from assms(1,2) have "length (take n (drop i s)) = n" by simp
  then have n: "n \<le> length s - i" by simp
  with assms(3,4) have j: "j < length s" by simp
  from assms(3,4) have "j - i < n" by simp
  then have "take n (drop i s) ! (j - i) = drop i s ! (j - i)" by simp
  also have "\<dots> = s ! j" using j assms(3) by simp
  finally show ?thesis using j assms(1) by simp
qed

text \<open>Between its start and its opening parenthesis a match consists of word characters
  and white space only.\<close>

lemma async_void_span:
  assumes "(e, h) \<in> set (ends async_void s (st, g))"
  shows "st + 10 < e \<and> e \<le> length s \<and> s ! (e - 1) = CHR ''('' \<and>
         (\<forall>j. st \<le> j \<and> j < e - 1 \<longrightarrow> is_word (s ! j) \<or> is_space (s ! j))"
proof -
  from async_void_shape [OF assms] obtain k2 k4 k5 k6 where
    a: "take 5 (drop st s) = ''async''" and
    k2: "st + 5 < k2" "k2 \<le> st + 5 + run Space s (st + 5)" and
    v: "take 4 (drop k2 s) = ''void''" and
    k4: "k2 + 4 < k4" "k4 \<le> k2 + 4 + run Space s (k2 + 4)" and
    k5: "k4 < k5" "k5 \<le> k4 + run Word s k4" and
    k6: "k5 \<le> k6" "k6 \<le> k5 + run Space s k5" and
    par: "take 1 (drop k6 s) = ''(''" and e: "e = k6 + 1"
    by blast
  have wa: "\<forall>c \<in> set ''async''. is_word c" by code_simp
  have wv: "\<forall>c \<in> set ''void''. is_word c" by code_simp
  from lit_members [OF par, of k6] have p6: "k6 < length s" "s ! k6 = CHR ''(''"
    by simp_all
  have "is_word (s ! j) \<or> is_space (s ! j)" if j: "st \<le> j" "j < k6" for j
  proof -
    consider "j < st + 5" | "st + 5 \<le> j" "j < k2" | "k2 \<le> j" "j < k2 + 4"
      | "k2 + 4 \<le> j" "j < k4" | "k4 \<le> j" "j < k5" | "k5 \<le> j" "j < k6"
      using j by linarith
    then show ?thesis
    proof cases
      case 1
      from lit_members [OF a _ j(1)] 1 have "s ! j = ''async'' ! (j - st)" by simp
      moreover from 1 j(1) have "''async'' ! (j - st) \<in> set ''async''"
        by (intro nth_mem) simp
      from bspec [OF wa this] have "is_word (''async'' ! (j - st))" .
      ultimately show ?thesis by (simp only: simp_thms)
    next
      case 2
      from run_members [OF 2 k2(2)] show ?thesis by simp
    next
      case 3
      from lit_members [OF v _ 3(1)] 3 have "s ! j = ''void'' ! (j - k2)" by simp
      moreover from 3 have "''void'' ! (j - k2) \<in> set ''void''"
        by (intro nth_mem) simp
      from bspec [OF wv this] have "is_word (''void'' ! (j - k2))" .
      ultimately show ?thesis by (simp only: simp_thms)
    next
      case 4
      from run_members [OF 4 k4(2)] show ?thesis by simp
    next
      case 5
      from run_members [OF 5 k5(2)] show ?thesis by simp
    next
      case 6
      from run_members [OF 6 k6(2)] show ?thesis by simp
    qed
  qed
  with p6 e k2 k4 k5 k6 show ?thesis by simp
qed

subsection \<open>Matching inside a longer text\<close>

text \<open>A pattern without \<open>^\<close> matches in \<open>pre @ s\<close> from position \<open>length pre + i\<close> as it
  matches in \<open>s\<close> from \<open>i\<close>, with all positions moved by \<open>length pre\<close>, when \<open>i\<close> is not the
  start of \<open>s\<close> or no word character stands before it.\<close>

fun plain :: "regex \<Rightarrow> bool" where
  "plain Line_start = False"
| "plain (Seq a b) = (plain a \<and> plain b)"
| "plain (Alt a b) = (plain a \<and> plain b)"
| "plain (Opt a) = plain a"
| "plain (Grp a) = plain a"
| "plain r = True"

definition shift_span :: "nat \<Rightarrow> span option \<Rightarrow> span option" where
  "shift_span k g = map_option (\<lambda>(a, b). (k + a, k + b)) g"

definition shift_state :: "nat \<Rightarrow> mstate \<Rightarrow> mstate" where
  "shift_state k x = (case x of (j, g) \<Rightarrow> (k + j, shift_span k g))"

lemma shift_state_simp [simp]: "shift_state k (j, g) = (k + j, shift_span k g)"
  by (simp add: shift_state_def)

lemma run_shift: "run c (pre @ s) (length pre + i) = run c s i"
  by (simp add: run_def)

lemma word_at_shift: "word_at (pre @ s) (length pre + i) = word_at s i"
  by (simp add: word_at_def nth_append)

lemma at_boundary_shift:
  assumes "0 < i \<or> pre = [] \<or> \<not> is_word (last pre)"
  shows "at_boundary (pre @ s) (length pre + i) = at_boundary s i"
proof (cases "0 < i")
  case True
  then have "length pre + i - 1 = length pre + (i - 1)" by simp
  then have "word_at (pre @ s) (length pre + i - 1) = word_at s (i - 1)"
    by (simp only: word_at_shift)
  with True show ?thesis
    by (simp add: at_boundary_def word_at_shift)
next
  case False
  then have i: "i = 0" by simp
  with assms have "pre = [] \<or> \<not> is_word (last pre)" by simp
  then have "\<not> (0 < length pre \<and> word_at (pre @ s) (length pre - 1))"
    by (auto simp: word_at_def nth_append last_conv_nth)
  then have "at_boundary (pre @ s) (length pre) = word_at (pre @ s) (length pre)"
    unfolding at_boundary_def by blast
  moreover have "at_boundary s 0 = word_at s 0"
    unfolding at_boundary_def by simp
  ultimately show ?thesis
    using word_at_shift [of pre s 0] by (simp add: i)
qed

lemma ends_shift:
  assumes "plain r" "0 < i \<or> pre = [] \<or> \<not> is_word (last pre)"
  shows "ends r (pre @ s) (length pre + i, shift_span (length pre) g) =
           map (shift_state (length pre)) (ends r s (i, g))"
  using assms
proof (induction r arbitrary: i g)
  case (Lit l)
  then show ?case by simp
next
  case (Star c)
  then show ?case by (simp add: run_shift)
next
  case (Plus c)
  then show ?case by (simp add: run_shift)
next
  case (Seq a b)
  have "ends b (pre @ s) (shift_state (length pre) x) =
          map (shift_state (length pre)) (ends b s x)"
    if x: "x \<in> set (ends a s (i, g))" for x
  proof -
    obtain j h where xe: "x = (j, h)" by (cases x)
    with x ends_bounds [of j h a s i g] have "i \<le> j" by simp
    with Seq.prems(2) have "0 < j \<or> pre = [] \<or> \<not> is_word (last pre)" by auto
    with Seq.IH(2) [of j h] Seq.prems(1) show ?thesis by (simp add: xe)
  qed
  then have "map (ends b (pre @ s)) (map (shift_state (length pre)) (ends a s (i, g))) =
               map (\<lambda>x. map (shift_state (length pre)) (ends b s x)) (ends a s (i, g))"
    by simp
  moreover have "ends a (pre @ s) (length pre + i, shift_span (length pre) g) =
                   map (shift_state (length pre)) (ends a s (i, g))"
    using Seq.IH(1) [of i g] Seq.prems by simp
  ultimately have "ends (Seq a b) (pre @ s) (length pre + i, shift_span (length pre) g) =
      concat (map (\<lambda>x. map (shift_state (length pre)) (ends b s x)) (ends a s (i, g)))"
    by (simp only: ends.simps)
  also have "\<dots> = map (shift_state (length pre)) (ends (Seq a b) s (i, g))"
    by (simp add: map_concat comp_def)
  finally show ?case .
next
  case (Alt a b)
  then show ?case by simp
next
  case (Opt a)
  then show ?case by simp
next
  case (Grp a)
  have "ends a (pre @ s) (length pre + i, shift_span (length pre) g) =
          map (shift_state (length pre)) (ends a s (i, g))"
    using Grp.IH [of i g] Grp.prems by simp
  then show ?case
    by (simp add: shift_state_def shift_span_def split_def comp_def)
next
  case Word_boundary
  then show ?case by (simp add: at_boundary_shift)
next
  case Line_start
  then show ?case by simp
qed

lemma match_at_shift:
  assumes "plain r" "0 < i \<or> pre = [] \<or> \<not> is_word (last pre)"
  shows "match_at r (pre @ s) (length pre + i) =
           map_option (\<lambda>m. \<lparr>m_start = length pre + m_start m, m_end = length pre + m_end m,
                              m_group1 = shift_span (length pre) (m_group1 m)\<rparr>)
             (match_at r s i)"
proof -
  have "ends r (pre @ s) (length pre + i, None) =
          map (shift_state (length pre)) (ends r s (i, None))"
    using ends_shift [OF assms, of s None] by (simp add: shift_span_def)
  then show ?thesis
    by (cases "ends r s (i, None)") (auto simp: match_at_def)
qed

subsection \<open>The \<open>async void Foo() { }\<close> scenario\<close>

definition foo_decl :: string where
  "foo_decl = ''async void Foo() { }''"

lemma async_void_plain: "plain async_void"
  by (simp add: async_void_def)

lemma async_void_at_foo_decl:
  "ends async_void (foo_decl @ post) (0, None) = [(15, None)]"
  unfolding async_void_def foo_decl_def
  by (simp add: at_boundary_def word_at_def run_def is_word_def is_space_def code_def)

lemma match_at_foo_decl:
  assumes "pre = [] \<or> \<not> is_word (last pre)"
  shows "match_at async_void (pre @ foo_decl @ post) (length pre) =
           Some \<lparr>m_start = length pre, m_end = length pre + 15, m_group1 = None\<rparr>"
proof -
  have "match_at async_void (foo_decl @ post) 0 =
          Some \<lparr>m_start = 0, m_end = 15, m_group1 = None\<rparr>"
    by (simp add: match_at_def async_void_at_foo_decl)
  with match_at_shift [OF async_void_plain, of 0 pre "foo_decl @ post"] assms
  show ?thesis by (simp add: shift_span_def)
qed

lemma foo_decl_chars:
  "\<not> is_space (foo_decl ! 4)" "\<not> is_space (foo_decl ! 9)" "\<not> is_word (foo_decl ! 10)"
  "\<not> is_space (foo_decl ! 11)" "\<not> is_space (foo_decl ! 12)" "\<not> is_space (foo_decl ! 13)"
  "\<not> is_word (foo_decl ! 14)" "\<not> is_space (foo_decl ! 14)"
  "\<forall>j \<in> set [0..<14]. foo_decl ! j \<noteq> CHR ''(''"
  by code_simp+

text \<open>A match of \<open>async_void\<close> that starts before an occurrence of the declaration ends
  before it.\<close>

lemma async_void_before_foo_decl:
  assumes "(e, h) \<in> set (ends async_void (pre @ foo_decl @ post) (st, g))" "st < length pre"
  shows "e \<le> length pre"
proof (rule ccontr)
  assume "\<not> e \<le> length pre"
  define t where "t = pre @ foo_decl @ post"
  define p where "p = length pre"
  from \<open>\<not> e \<le> length pre\<close> have e: "p < e" by (simp add: p_def)
  from assms have mem: "(e, h) \<in> set (ends async_void t (st, g))" and st: "st < p"
    by (simp_all add: t_def p_def)
  have len: "length foo_decl = 20" by (simp add: foo_decl_def)
  have at: "t ! (p + j) = foo_decl ! j" if "j < 20" for j
    using that by (simp add: nth_append len t_def p_def)
  from async_void_shape [OF mem] obtain k2 k4 k5 k6 where
    k2: "st + 5 < k2" "k2 \<le> st + 5 + run Space t (st + 5)" and
    k4: "k2 + 4 < k4" "k4 \<le> k2 + 4 + run Space t (k2 + 4)" and
    k5: "k4 < k5" "k5 \<le> k4 + run Word t k4" and
    k6: "k5 \<le> k6" "k6 \<le> k5 + run Space t k5" and
    ek: "e = k6 + 1"
    by blast
  from async_void_span [OF mem] ek have
    par: "t ! k6 = CHR ''(''" and
    ws: "\<forall>j. st \<le> j \<and> j < k6 \<longrightarrow> is_word (t ! j) \<or> is_space (t ! j)"
    by simp_all
  from e ek have k6p: "p \<le> k6" by simp
  have k6le: "k6 \<le> p + 14"
  proof (rule ccontr)
    assume "\<not> k6 \<le> p + 14"
    with st have "st \<le> p + 14 \<and> p + 14 < k6" by simp
    with ws have "is_word (t ! (p + 14)) \<or> is_space (t ! (p + 14))" by blast
    with at [of 14] foo_decl_chars(7,8) show False by simp
  qed
  have k6eq: "k6 = p + 14"
  proof (rule ccontr)
    assume "k6 \<noteq> p + 14"
    with k6le k6p have j: "k6 - p < 14" "k6 = p + (k6 - p)" by simp_all
    then have "k6 - p \<in> set [0..<14]" by simp
    with foo_decl_chars(9) have "foo_decl ! (k6 - p) \<noteq> CHR ''(''" by blast
    moreover from j at [of "k6 - p"] have "t ! k6 = foo_decl ! (k6 - p)" by simp
    ultimately show False using par by simp
  qed
  have k5eq: "k5 = p + 14"
  proof (rule ccontr)
    assume "k5 \<noteq> p + 14"
    with k6(1) k6eq have "k5 \<le> p + 13" "p + 13 < k6" by simp_all
    from run_members [OF this k6(2)] have "is_space (t ! (p + 13))" by simp
    with at [of 13] foo_decl_chars(6) show False by simp
  qed
  have k4ge: "p + 11 \<le> k4"
  proof (rule ccontr)
    assume "\<not> p + 11 \<le> k4"
    with k5(1) k5eq have "k4 \<le> p + 10" "p + 10 < k5" by simp_all
    from run_members [OF this k5(2)] have "is_word (t ! (p + 10))" by simp
    with at [of 10] foo_decl_chars(3) show False by simp
  qed
  have sp4: "is_space (t ! (k4 - 1))"
  proof -
    from k4(1) have "k2 + 4 \<le> k4 - 1" "k4 - 1 < k4" by simp_all
    from run_members [OF this k4(2)] show ?thesis by simp
  qed
  have k4eq: "k4 = p + 11"
  proof (rule ccontr)
    assume "k4 \<noteq> p + 11"
    with k4ge k5(1) k5eq consider "k4 - 1 = p + 11" | "k4 - 1 = p + 12" by linarith
    then show False
    proof cases
      case 1
      with sp4 at [of 11] foo_decl_chars(4) show False by simp
    next
      case 2
      with sp4 at [of 12] foo_decl_chars(5) show False by simp
    qed
  qed
  have k2eq: "k2 = p + 6"
  proof (rule ccontr)
    assume "k2 \<noteq> p + 6"
    with k4(1) k4eq have "k2 + 4 \<le> p + 9" "p + 9 < k4" by simp_all
    from run_members [OF this k4(2)] have "is_space (t ! (p + 9))" by simp
    with at [of 9] foo_decl_chars(2) show False by simp
  qed
  from st k2eq have "st + 5 \<le> p + 4" "p + 4 < k2" by simp_all
  from run_members [OF this k2(2)] have "is_space (t ! (p + 4))" by simp
  with at [of 4] foo_decl_chars(1) show False by simp
qed

end
